theory Spec2Isabelle
  imports Complex_Main
begin

section \<open>Data model\<close>

text \<open>
  The multi-dataset loader of \<^verbatim>\<open>ddetrs/data/custom_dataset_dataloader.py\<close>.
  A dataset dict is a Python dictionary; the keys the loader reads are fields here.
  \<^verbatim>\<open>annotations\<close> and \<^verbatim>\<open>pos_category_ids\<close> may be absent from a dict
  (\<open>None\<close>: reading them raises \<^verbatim>\<open>KeyError\<close>); an annotation is kept as its
  \<^verbatim>\<open>category_id\<close>. \<^verbatim>\<open>dataset_source\<close> is written by the merger from
  \<^verbatim>\<open>enumerate\<close>, so it is a natural number. Tensors of floats are lists of reals:
  rounding, infinities and NaN are outside this model.
\<close>

datatype error = AssertionError | IndexError | KeyError | ValueError | RuntimeError

record ddict =
  dataset_source :: nat
  width :: int
  height :: int
  annotations :: "int list option"
  pos_category_ids :: "int list option"

section \<open>Record source merger\<close>

text \<open>
  \<^verbatim>\<open>for d in dicts: d["dataset_source"] = source_id\<close>
\<close>

definition tag_source :: "nat \<Rightarrow> ddict list \<Rightarrow> ddict list" where
  "tag_source source_id dicts = map (\<lambda>d. d\<lparr>dataset_source := source_id\<rparr>) dicts"

text \<open>
  The loop over \<^verbatim>\<open>enumerate(zip(dataset_names, dataset_dicts))\<close>: it asserts that the
  dataset is not empty and tags its dicts. The class histogram it prints is logging only.
\<close>

fun tag_loop :: "nat \<Rightarrow> ddict list list \<Rightarrow> error + ddict list list" where
  "tag_loop source_id [] = Inr []"
| "tag_loop source_id (dicts # rest) =
     (if dicts = [] then Inl AssertionError
      else case tag_loop (Suc source_id) rest of
             Inl e \<Rightarrow> Inl e
           | Inr tagged \<Rightarrow> Inr (tag_source source_id dicts # tagged))"

text \<open>
  The body of the last loop, \<^verbatim>\<open>for dataset_dict in dataset_dicts\<close>. It rebinds the loop
  variable \<^verbatim>\<open>dataset_dict\<close> to the filtered list and returns nothing: the value computed
  here is the last binding of that local variable. The two filters are functions of
  detectron2, taken as parameters.
\<close>

definition filter_body ::
  "(ddict list \<Rightarrow> ddict list) \<Rightarrow> (ddict list \<Rightarrow> int \<Rightarrow> ddict list) \<Rightarrow>
   bool \<Rightarrow> int \<Rightarrow> ddict list \<Rightarrow> ddict list" where
  "filter_body filter_images_with_only_crowd_annotations filter_images_with_few_keypoints
     filter_empty min_keypoints dataset_dict =
     (let has_instances = (annotations (hd dataset_dict) \<noteq> None);
          dataset_dict1 = (if filter_empty \<and> has_instances
                           then filter_images_with_only_crowd_annotations dataset_dict
                           else dataset_dict);
          dataset_dict2 = (if min_keypoints > 0 \<and> has_instances
                           then filter_images_with_few_keypoints dataset_dict1 min_keypoints
                           else dataset_dict1)
      in dataset_dict2)"

text \<open>
  The loop itself: the state it threads is the list \<^verbatim>\<open>dataset_dicts\<close>, which no
  iteration assigns to, and the loop variable, which each iteration overwrites.
\<close>

fun filter_loop ::
  "(ddict list \<Rightarrow> ddict list) \<Rightarrow> (ddict list \<Rightarrow> int \<Rightarrow> ddict list) \<Rightarrow>
   bool \<Rightarrow> int \<Rightarrow> ddict list list \<Rightarrow> ddict list list \<Rightarrow> ddict list list" where
  "filter_loop fc fk filter_empty min_keypoints dataset_dicts [] = dataset_dicts"
| "filter_loop fc fk filter_empty min_keypoints dataset_dicts (dataset_dict # rest) =
     (let dataset_dict' = filter_body fc fk filter_empty min_keypoints dataset_dict
      in filter_loop fc fk filter_empty min_keypoints dataset_dicts rest)"

text \<open>
  \<^verbatim>\<open>get_detection_dataset_dicts_with_source\<close>. \<^verbatim>\<open>DatasetCatalog\<close> is the registry of
  dataset loaders: a name that is not registered raises \<^verbatim>\<open>KeyError\<close>, and every
  \<^verbatim>\<open>get\<close> calls the loader, which builds fresh dicts.
\<close>

definition get_detection_dataset_dicts_with_source ::
  "(string \<rightharpoonup> ddict list) \<Rightarrow>
   (ddict list \<Rightarrow> ddict list) \<Rightarrow> (ddict list \<Rightarrow> int \<Rightarrow> ddict list) \<Rightarrow>
   string list \<Rightarrow> bool \<Rightarrow> int \<Rightarrow> 'p option \<Rightarrow> error + ddict list" where
  "get_detection_dataset_dicts_with_source DatasetCatalog fc fk
     dataset_names filter_empty min_keypoints proposal_files =
     (if dataset_names = [] then Inl AssertionError
      else case those (map DatasetCatalog dataset_names) of
        None \<Rightarrow> Inl KeyError
      | Some dataset_dicts \<Rightarrow>
          if list_ex (\<lambda>dicts. dicts = []) dataset_dicts then Inl AssertionError
          else case tag_loop 0 dataset_dicts of
            Inl e \<Rightarrow> Inl e
          | Inr tagged \<Rightarrow>
              if proposal_files \<noteq> None then Inl AssertionError
              else Inr (concat (filter_loop fc fk filter_empty min_keypoints tagged tagged)))"

text \<open>What the merger is specified to return: the tagged datasets, in input order.\<close>

definition tagged_datasets :: "ddict list list \<Rightarrow> ddict list list" where
  "tagged_datasets dss = map (\<lambda>(source_id, dicts). tag_source source_id dicts) (enumerate 0 dss)"

section \<open>Repeat factors and class-balance factors\<close>

text \<open>
  \<^verbatim>\<open>category_freq = defaultdict(int)\<close> filled by
  \<^verbatim>\<open>for cat_id in cat_ids: category_freq[cat_id] += 1\<close> over all dicts: a key that was
  never written reads as \<open>0\<close>.
\<close>

definition count_ids :: "int list list \<Rightarrow> int \<Rightarrow> nat" where
  "count_ids idss =
     fold (\<lambda>cat_ids category_freq. fold (\<lambda>cat_id f. f(cat_id := f cat_id + 1)) cat_ids category_freq)
       idss (\<lambda>_. 0)"

text \<open>
  The body that the two repeat-factor functions share once the identity lists are read:
  frequencies, \<^verbatim>\<open>max(1.0, math.sqrt(repeat_thresh / cat_freq))\<close> per key
  (\<^verbatim>\<open>math.sqrt\<close> raises \<^verbatim>\<open>ValueError\<close> below zero), and
  \<^verbatim>\<open>max({...}, default=1.0)\<close> per dict.
\<close>

definition repeat_factors_from_ids :: "int list list \<Rightarrow> real \<Rightarrow> error + real list" where
  "repeat_factors_from_ids idss repeat_thresh =
     (let category_count = count_ids idss;
          num_images = length idss;
          category_freq = (\<lambda>k. real (category_count k) / real num_images);
          keys = remdups (concat idss)
      in if list_ex (\<lambda>k. repeat_thresh / category_freq k < 0) keys then Inl ValueError
         else let category_rep = (\<lambda>cat_id. max 1 (sqrt (repeat_thresh / category_freq cat_id)))
              in Inr (map (\<lambda>cat_ids. if cat_ids = [] then 1
                                      else Max (set (map category_rep cat_ids))) idss))"

text \<open>\<^verbatim>\<open>repeat_factors_from_tag_frequency\<close>: the identities are \<^verbatim>\<open>pos_category_ids\<close>.\<close>

definition repeat_factors_from_tag_frequency :: "ddict list \<Rightarrow> real \<Rightarrow> error + real list" where
  "repeat_factors_from_tag_frequency dataset_dicts repeat_thresh =
     (case those (map pos_category_ids dataset_dicts) of
        None \<Rightarrow> Inl KeyError
      | Some idss \<Rightarrow> repeat_factors_from_ids idss repeat_thresh)"

text \<open>
  Modelled from the spec: \<^verbatim>\<open>RepeatFactorTrainingSampler.repeat_factors_from_category_frequency\<close>
  of detectron2 is not among the sources. Section 4.2 gives it the same algorithm as the tag
  variant, reading the set of category ids of the box annotations.
\<close>

definition repeat_factors_from_category_frequency :: "ddict list \<Rightarrow> real \<Rightarrow> error + real list" where
  "repeat_factors_from_category_frequency dataset_dicts repeat_thresh =
     (case those (map annotations dataset_dicts) of
        None \<Rightarrow> Inl KeyError
      | Some anns \<Rightarrow> repeat_factors_from_ids (map remdups anns) repeat_thresh)"

text \<open>
  \<^verbatim>\<open>_get_class_balance_factor_per_dataset\<close>: \<^verbatim>\<open>cat_ids\<close> is the set of category ids of
  a dict's annotations, and each dict gets
  \<^verbatim>\<open>sum([1.0 / (category_freq[cat_id] ** l) for cat_id in cat_ids])\<close>.
\<close>

definition get_class_balance_factor_per_dataset :: "ddict list \<Rightarrow> real \<Rightarrow> error + real list" where
  "get_class_balance_factor_per_dataset dataset_dicts l =
     (case those (map annotations dataset_dicts) of
        None \<Rightarrow> Inl KeyError
      | Some anns \<Rightarrow>
          let cat_idss = map remdups anns;
              category_freq = count_ids cat_idss
          in Inr (map (\<lambda>cat_ids. sum_list (map (\<lambda>cat_id. 1 / (real (category_freq cat_id) powr l)) cat_ids))
                    cat_idss))"

text \<open>
  The repeat factors in the words of section 4.2 of the specification, for the lists of
  tag ids of one group: the frequency of a tag is the share of dicts that contain it; its
  repeat value is \<open>max(1, sqrt(repeat_threshold / freq))\<close>; a dict gets the largest
  repeat value of its tags, or 1 without tags; the array is scaled to sum to the size of
  the group.
\<close>

definition spec_freq :: "int list list \<Rightarrow> int \<Rightarrow> real" where
  "spec_freq tagss c =
     real (length (filter (\<lambda>tags. c \<in> set tags) tagss)) / real (length tagss)"

definition spec_rep :: "real \<Rightarrow> int list list \<Rightarrow> int \<Rightarrow> real" where
  "spec_rep repeat_threshold tagss c = max 1 (sqrt (repeat_threshold / spec_freq tagss c))"

definition spec_record_factor :: "real \<Rightarrow> int list list \<Rightarrow> int list \<Rightarrow> real" where
  "spec_record_factor repeat_threshold tagss tags =
     (if set tags = {} then 1 else Max (spec_rep repeat_threshold tagss ` set tags))"

definition spec_repeat_factors :: "real \<Rightarrow> int list list \<Rightarrow> real list" where
  "spec_repeat_factors repeat_threshold tagss =
     (let raw = map (spec_record_factor repeat_threshold tagss) tagss
      in map (\<lambda>x. x * (real (length tagss) / sum_list raw)) raw)"

section \<open>Weighted infinite sampler: construction\<close>

text \<open>What \<^verbatim>\<open>detectron2.utils.comm\<close> answers in this process.\<close>

record comm =
  shared_random_seed :: int
  get_rank :: nat
  get_world_size :: nat

record sampler =
  mds_sizes :: "nat list"
  mds_seed :: int
  mds_rank :: nat
  mds_world_size :: nat
  mds_dataset_ids :: "nat list"
  mds_weights :: "real list"
  mds_sample_epoch_size :: nat

text \<open>
  \<^verbatim>\<open>for d in dataset_dicts: sizes[d["dataset_source"]] += 1\<close>, an \<^verbatim>\<open>IndexError\<close> when the
  source is not an index of \<^verbatim>\<open>sizes\<close>.
\<close>

fun count_sizes :: "nat list \<Rightarrow> ddict list \<Rightarrow> error + nat list" where
  "count_sizes sizes [] = Inr sizes"
| "count_sizes sizes (d # ds) =
     (if dataset_source d < length sizes
      then count_sizes (sizes[dataset_source d := sizes ! dataset_source d + 1]) ds
      else Inl IndexError)"

text \<open>
  \<^verbatim>\<open>[torch.ones(s) * max(sizes) / s * r / sum(dataset_ratio) for (r, s) in zip(dataset_ratio, sizes)]\<close>,
  concatenated.
\<close>

definition dataset_weight :: "real list \<Rightarrow> nat list \<Rightarrow> real list" where
  "dataset_weight dataset_ratio sizes =
     concat (map (\<lambda>(r, s). map (\<lambda>one. one * real (Max (set sizes)) / real s * r / sum_list dataset_ratio)
                              (replicate s 1))
                 (zip dataset_ratio sizes))"

text \<open>
  The body of the loop that fills \<^verbatim>\<open>rfs_factors\<close>, for dataset \<^verbatim>\<open>i\<close> of size
  \<^verbatim>\<open>s\<close> and its slice \<^verbatim>\<open>dataset_dicts[st : st + s]\<close>: the repeat factors scaled by
  \<^verbatim>\<open>s / rfs_factor.sum()\<close>, or \<^verbatim>\<open>torch.ones(s)\<close>.
\<close>

definition rfs_body ::
  "bool list \<Rightarrow> string list \<Rightarrow> real \<Rightarrow> nat \<Rightarrow> ddict list \<Rightarrow> nat \<Rightarrow> error + real list" where
  "rfs_body use_rfs dataset_ann repeat_threshold i slice s =
     (if i \<ge> length use_rfs then Inl IndexError
      else if use_rfs ! i
      then (if i \<ge> length dataset_ann then Inl IndexError
            else case (if dataset_ann ! i = ''box''
                       then repeat_factors_from_category_frequency
                       else repeat_factors_from_tag_frequency) slice repeat_threshold of
                   Inl e \<Rightarrow> Inl e
                 | Inr rfs_factor \<Rightarrow>
                     Inr (map (\<lambda>x. x * (real s / sum_list rfs_factor)) rfs_factor))
      else Inr (replicate s 1))"

fun rfs_loop ::
  "ddict list \<Rightarrow> bool list \<Rightarrow> string list \<Rightarrow> real \<Rightarrow> nat \<Rightarrow> nat \<Rightarrow> nat list \<Rightarrow>
   error + real list list" where
  "rfs_loop dataset_dicts use_rfs dataset_ann repeat_threshold i st [] = Inr []"
| "rfs_loop dataset_dicts use_rfs dataset_ann repeat_threshold i st (s # sizes) =
     (case rfs_body use_rfs dataset_ann repeat_threshold i (take s (drop st dataset_dicts)) s of
        Inl e \<Rightarrow> Inl e
      | Inr rfs_factor \<Rightarrow>
          (case rfs_loop dataset_dicts use_rfs dataset_ann repeat_threshold (Suc i) (st + s) sizes of
             Inl e \<Rightarrow> Inl e
           | Inr rest \<Rightarrow> Inr (rfs_factor # rest)))"

text \<open>
  The same for \<^verbatim>\<open>cas_factors\<close>; \<^verbatim>\<open>_get_class_balance_factor_per_dataset\<close> is called
  with its default exponent \<^verbatim>\<open>l=1.0\<close>.
\<close>

definition cas_body :: "bool list \<Rightarrow> nat \<Rightarrow> ddict list \<Rightarrow> nat \<Rightarrow> error + real list" where
  "cas_body use_cas i slice s =
     (if i \<ge> length use_cas then Inl IndexError
      else if use_cas ! i
      then (case get_class_balance_factor_per_dataset slice 1 of
              Inl e \<Rightarrow> Inl e
            | Inr cas_factor \<Rightarrow>
                Inr (map (\<lambda>x. x * (real s / sum_list cas_factor)) cas_factor))
      else Inr (replicate s 1))"

fun cas_loop :: "ddict list \<Rightarrow> bool list \<Rightarrow> nat \<Rightarrow> nat \<Rightarrow> nat list \<Rightarrow> error + real list list" where
  "cas_loop dataset_dicts use_cas i st [] = Inr []"
| "cas_loop dataset_dicts use_cas i st (s # sizes) =
     (case cas_body use_cas i (take s (drop st dataset_dicts)) s of
        Inl e \<Rightarrow> Inl e
      | Inr cas_factor \<Rightarrow>
          (case cas_loop dataset_dicts use_cas (Suc i) (st + s) sizes of
             Inl e \<Rightarrow> Inl e
           | Inr rest \<Rightarrow> Inr (cas_factor # rest)))"

text \<open>
  The two loops seen dataset by dataset: the body applied to each group of dicts in turn,
  stopping at the first error.
\<close>

fun per_dataset :: "(nat \<Rightarrow> 'a list \<Rightarrow> nat \<Rightarrow> error + 'b) \<Rightarrow> nat \<Rightarrow> 'a list list \<Rightarrow> error + 'b list" where
  "per_dataset body i [] = Inr []"
| "per_dataset body i (xs # xss) =
     (case body i xs (length xs) of
        Inl e \<Rightarrow> Inl e
      | Inr y \<Rightarrow> (case per_dataset body (Suc i) xss of
                    Inl e \<Rightarrow> Inl e
                  | Inr ys \<Rightarrow> Inr (y # ys)))"

text \<open>Elementwise product of two tensors of one length.\<close>

definition tensor_mul :: "real list \<Rightarrow> real list \<Rightarrow> real list" where
  "tensor_mul xs ys = map2 (*) xs ys"

text \<open>
  \<^verbatim>\<open>MultiDatasetSampler.__init__\<close>. \<^verbatim>\<open>torch.cat\<close> of an empty list of tensors raises
  \<^verbatim>\<open>RuntimeError\<close>. \<^verbatim>\<open>self.weights\<close> is assigned twice; the sampler keeps the second.
\<close>

definition MultiDatasetSampler_init ::
  "comm \<Rightarrow> ddict list \<Rightarrow> real list \<Rightarrow> bool list \<Rightarrow> bool list \<Rightarrow> string list \<Rightarrow> real \<Rightarrow>
   int option \<Rightarrow> error + sampler" where
  "MultiDatasetSampler_init cm dataset_dicts dataset_ratio use_rfs use_cas dataset_ann
     repeat_threshold seed =
     (case count_sizes (replicate (length dataset_ratio) 0) dataset_dicts of
        Inl e \<Rightarrow> Inl e
      | Inr sizes \<Rightarrow>
          if length dataset_ratio \<noteq> length sizes then Inl AssertionError
          else let seed' = (case seed of None \<Rightarrow> shared_random_seed cm | Some sd \<Rightarrow> sd);
                   dataset_ids = map dataset_source dataset_dicts
               in if zip dataset_ratio sizes = [] then Inl RuntimeError
                  else let dw = dataset_weight dataset_ratio sizes
                       in case rfs_loop dataset_dicts use_rfs dataset_ann repeat_threshold 0 0 sizes of
                            Inl e \<Rightarrow> Inl e
                          | Inr rfs_factors \<Rightarrow>
                              let weights1 = tensor_mul dw (concat rfs_factors);
                                  sample_epoch_size = length weights1
                              in case cas_loop dataset_dicts use_cas 0 0 sizes of
                                   Inl e \<Rightarrow> Inl e
                                 | Inr cas_factors \<Rightarrow>
                                     Inr \<lparr>mds_sizes = sizes, mds_seed = seed',
                                          mds_rank = get_rank cm,
                                          mds_world_size = get_world_size cm,
                                          mds_dataset_ids = dataset_ids,
                                          mds_weights = tensor_mul dw (concat cas_factors),
                                          mds_sample_epoch_size = sample_epoch_size\<rparr>)"

text \<open>
  The weight vector the specification asks for, from the same three local tensors:
  \<^verbatim>\<open>dataset_weight * rfs_factors * cas_factors\<close>.
\<close>

definition spec_weights ::
  "ddict list \<Rightarrow> real list \<Rightarrow> bool list \<Rightarrow> bool list \<Rightarrow> string list \<Rightarrow> real \<Rightarrow> nat list \<Rightarrow>
   error + real list" where
  "spec_weights dataset_dicts dataset_ratio use_rfs use_cas dataset_ann repeat_threshold sizes =
     (case rfs_loop dataset_dicts use_rfs dataset_ann repeat_threshold 0 0 sizes of
        Inl e \<Rightarrow> Inl e
      | Inr rfs_factors \<Rightarrow>
          (case cas_loop dataset_dicts use_cas 0 0 sizes of
             Inl e \<Rightarrow> Inl e
           | Inr cas_factors \<Rightarrow>
               Inr (tensor_mul (tensor_mul (dataset_weight dataset_ratio sizes) (concat rfs_factors))
                      (concat cas_factors))))"

section \<open>Weighted infinite sampler: iteration\<close>

text \<open>
  A generator is modelled by what it has yielded when it is left or raises: the list of
  yielded values, and the error if one was raised.

  The \<^verbatim>\<open>while True\<close> loop of \<^verbatim>\<open>_infinite_indices\<close> after a number of rounds.
  \<^verbatim>\<open>torch.multinomial\<close> is a parameter: it returns the drawn indices and the state of the
  generator after the draw, or raises. The list \<^verbatim>\<open>nums\<close> that the loop computes is
  never read.
\<close>

fun infinite_indices_loop ::
  "(real list \<Rightarrow> nat \<Rightarrow> 'g \<Rightarrow> error + nat list \<times> 'g) \<Rightarrow> sampler \<Rightarrow> nat \<Rightarrow> 'g \<Rightarrow>
   nat list \<times> error option" where
  "infinite_indices_loop multinomial self 0 g = ([], None)"
| "infinite_indices_loop multinomial self (Suc rounds) g =
     (case multinomial (mds_weights self) (mds_sample_epoch_size self) g of
        Inl e \<Rightarrow> ([], Some e)
      | Inr (ids, g') \<Rightarrow>
          (case infinite_indices_loop multinomial self rounds g' of
             (rest, err) \<Rightarrow> (ids @ rest, err)))"

text \<open>
  \<^verbatim>\<open>_infinite_indices\<close>: a new \<^verbatim>\<open>torch.Generator\<close>, seeded by \<^verbatim>\<open>manual_seed\<close> (a
  parameter) with the sampler's seed, then the loop.
\<close>

definition infinite_indices ::
  "(int \<Rightarrow> 'g) \<Rightarrow> (real list \<Rightarrow> nat \<Rightarrow> 'g \<Rightarrow> error + nat list \<times> 'g) \<Rightarrow> sampler \<Rightarrow> nat \<Rightarrow>
   nat list \<times> error option" where
  "infinite_indices manual_seed multinomial self rounds =
     infinite_indices_loop multinomial self rounds (manual_seed (mds_seed self))"

text \<open>
  \<^verbatim>\<open>itertools.islice(it, start, None, step)\<close> as it consumes \<^verbatim>\<open>it\<close>: \<^verbatim>\<open>skip\<close> counts
  the elements to drop before the next one is yielded.
\<close>

fun islice_from :: "nat \<Rightarrow> nat \<Rightarrow> 'a list \<Rightarrow> 'a list" where
  "islice_from skip step [] = []"
| "islice_from skip step (x # xs) =
     (if skip = 0 then x # islice_from (step - 1) step xs
      else islice_from (skip - 1) step xs)"

text \<open>
  \<^verbatim>\<open>MultiDatasetSampler.__iter__\<close>; \<^verbatim>\<open>islice\<close> raises \<^verbatim>\<open>ValueError\<close> for a step that is
  not positive, before it reads anything.
\<close>

definition MultiDatasetSampler_iter ::
  "(int \<Rightarrow> 'g) \<Rightarrow> (real list \<Rightarrow> nat \<Rightarrow> 'g \<Rightarrow> error + nat list \<times> 'g) \<Rightarrow> sampler \<Rightarrow> nat \<Rightarrow>
   nat list \<times> error option" where
  "MultiDatasetSampler_iter manual_seed multinomial self rounds =
     (let start = mds_rank self
      in if mds_world_size self = 0 then ([], Some ValueError)
         else case infinite_indices manual_seed multinomial self rounds of
                (ids, err) \<Rightarrow> (islice_from start (mds_world_size self) ids, err))"

text \<open>
  The positions of the stream that \<^verbatim>\<open>islice\<close> reads out for a rank, among the first
  \<^verbatim>\<open>n\<close>: \<^verbatim>\<open>islice\<close> run on the positions themselves.
\<close>

definition consumed_positions :: "nat \<Rightarrow> nat \<Rightarrow> nat \<Rightarrow> nat list" where
  "consumed_positions rank world_size n = islice_from rank world_size [0..<n]"

section \<open>Batch grouper\<close>

text \<open>
  The state of \<^verbatim>\<open>MDAspectRatioGroupedDataset\<close> (one \<^verbatim>\<open>batch_size\<close>) and of
  \<^verbatim>\<open>DIFFMDAspectRatioGroupedDataset\<close> (one size per dataset), without the data loader
  they read from. The constructors build the buckets as
  \<^verbatim>\<open>[[] for _ in range(2 * num_datasets)]\<close> and check nothing.
\<close>

record md_grouper =
  md_batch_size :: int
  md_buckets :: "ddict list list"

record grouper =
  batch_sizes :: "int list"
  buckets :: "ddict list list"

definition MDAspectRatioGroupedDataset_init :: "int \<Rightarrow> nat \<Rightarrow> md_grouper" where
  "MDAspectRatioGroupedDataset_init batch_size num_datasets =
     \<lparr>md_batch_size = batch_size, md_buckets = replicate (2 * num_datasets) []\<rparr>"

definition DIFFMDAspectRatioGroupedDataset_init :: "int list \<Rightarrow> nat \<Rightarrow> grouper" where
  "DIFFMDAspectRatioGroupedDataset_init dataset_bs num_datasets =
     \<lparr>batch_sizes = dataset_bs, buckets = replicate (2 * num_datasets) []\<rparr>"

definition bucket_id_of :: "ddict \<Rightarrow> nat" where
  "bucket_id_of d =
     (let w = width d; h = height d;
          aspect_ratio_bucket_id = (if w > h then 0 else 1)
      in dataset_source d * 2 + aspect_ratio_bucket_id)"

text \<open>
  \<^verbatim>\<open>MDAspectRatioGroupedDataset.__iter__\<close> over the dicts that the data loader delivers:
  the batches yielded, and the grouper afterwards or the error raised.
\<close>

fun MD_iter :: "md_grouper \<Rightarrow> ddict list \<Rightarrow> ddict list list \<times> (error + md_grouper)" where
  "MD_iter self [] = ([], Inr self)"
| "MD_iter self (d # ds) =
     (let bucket_id = bucket_id_of d
      in if bucket_id \<ge> length (md_buckets self) then ([], Inl IndexError)
         else let bucket = md_buckets self ! bucket_id @ [d]
              in if int (length bucket) = md_batch_size self
                 then (case MD_iter (self\<lparr>md_buckets := (md_buckets self)[bucket_id := []]\<rparr>) ds of
                         (out, r) \<Rightarrow> (bucket # out, r))
                 else MD_iter (self\<lparr>md_buckets := (md_buckets self)[bucket_id := bucket]\<rparr>) ds)"

text \<open>
  \<^verbatim>\<open>DIFFMDAspectRatioGroupedDataset.__iter__\<close>: the dict is appended before
  \<^verbatim>\<open>self.batch_sizes[d["dataset_source"]]\<close> is read.
\<close>

fun DIFFMD_iter :: "grouper \<Rightarrow> ddict list \<Rightarrow> ddict list list \<times> (error + grouper)" where
  "DIFFMD_iter self [] = ([], Inr self)"
| "DIFFMD_iter self (d # ds) =
     (let bucket_id = bucket_id_of d
      in if bucket_id \<ge> length (buckets self) then ([], Inl IndexError)
         else let bucket = buckets self ! bucket_id @ [d]
              in if dataset_source d \<ge> length (batch_sizes self) then ([], Inl IndexError)
                 else if int (length bucket) = batch_sizes self ! dataset_source d
                 then (case DIFFMD_iter (self\<lparr>buckets := (buckets self)[bucket_id := []]\<rparr>) ds of
                         (out, r) \<Rightarrow> (bucket # out, r))
                 else DIFFMD_iter (self\<lparr>buckets := (buckets self)[bucket_id := bucket]\<rparr>) ds)"

text \<open>A batch is homogeneous: one dataset source and one aspect class.\<close>

definition homogeneous :: "ddict list \<Rightarrow> bool" where
  "homogeneous batch =
     (\<forall>d \<in> set batch. \<forall>d' \<in> set batch.
        dataset_source d = dataset_source d' \<and> (width d > height d) = (width d' > height d'))"

text \<open>Every bucket holds only dicts whose bucket id is its index.\<close>

definition buckets_inv :: "ddict list list \<Rightarrow> bool" where
  "buckets_inv bs = (\<forall>k < length bs. \<forall>d \<in> set (bs ! k). bucket_id_of d = k)"

section \<open>Example inputs\<close>

definition d0 :: ddict where
  "d0 = \<lparr>dataset_source = 7, width = 4, height = 3, annotations = Some [1],
          pos_category_ids = None\<rparr>"

definition e_wide :: ddict where
  "e_wide = \<lparr>dataset_source = 0, width = 4, height = 3, annotations = Some [1],
              pos_category_ids = None\<rparr>"

definition e_tall :: ddict where
  "e_tall = \<lparr>dataset_source = 0, width = 3, height = 4, annotations = Some [],
              pos_category_ids = None\<rparr>"

definition e_wide2 :: ddict where
  "e_wide2 = \<lparr>dataset_source = 0, width = 8, height = 2, annotations = Some [2],
               pos_category_ids = None\<rparr>"

text \<open>
  A stand-in for \<^verbatim>\<open>torch.multinomial\<close> on a generator whose state is a counter, and a
  sampler of rank 1 among 2 workers.
\<close>

definition ex_multinomial :: "real list \<Rightarrow> nat \<Rightarrow> nat \<Rightarrow> error + nat list \<times> nat" where
  "ex_multinomial w n g = Inr (map (\<lambda>i. (g + i) mod length w) [0..<n], g + n)"

definition ex_sampler :: sampler where
  "ex_sampler = \<lparr>mds_sizes = [3], mds_seed = 1, mds_rank = 1, mds_world_size = 2,
                  mds_dataset_ids = [0, 0, 0], mds_weights = [1, 1, 1],
                  mds_sample_epoch_size = 3\<rparr>"

text \<open>Dicts of a tag dataset: tag 7 is on one dict, tag 8 on all.\<close>

definition t_rare :: ddict where
  "t_rare = \<lparr>dataset_source = 0, width = 4, height = 3, annotations = None,
              pos_category_ids = Some [7, 8]\<rparr>"

definition t_common :: ddict where
  "t_common = \<lparr>dataset_source = 0, width = 3, height = 4, annotations = None,
                pos_category_ids = Some [8]\<rparr>"

text \<open>A second process, which would draw another shared seed.\<close>

definition cm1 :: comm where
  "cm1 = \<lparr>shared_random_seed = 7, get_rank = 0, get_world_size = 1\<rparr>"

text \<open>A dict of a tag dataset whose list of tag ids names tag 7 twice.\<close>

definition t_dup :: ddict where
  "t_dup = \<lparr>dataset_source = 0, width = 4, height = 3, annotations = None,
             pos_category_ids = Some [7, 7]\<rparr>"

text \<open>A process of rank 0 in a world of one; a large and a small dataset.\<close>

definition cm0 :: comm where
  "cm0 = \<lparr>shared_random_seed = 42, get_rank = 0, get_world_size = 1\<rparr>"

definition ex_catalog :: "string \<rightharpoonup> ddict list" where
  "ex_catalog = [''big'' \<mapsto> replicate 100 d0, ''small'' \<mapsto> replicate 10 d0]"

section \<open>Properties of the merger\<close>

lemma filter_loop_id: "filter_loop fc fk fe mk dataset_dicts todo = dataset_dicts"
  by (induction todo) (simp_all add: Let_def)

lemma tag_loop_nonempty:
  "\<forall>dicts \<in> set dss. dicts \<noteq> [] \<Longrightarrow>
   tag_loop n dss = Inr (map (\<lambda>(source_id, dicts). tag_source source_id dicts) (enumerate n dss))"
  by (induction dss arbitrary: n) simp_all

lemma those_map_Some:
  "\<forall>x \<in> set xs. f x \<noteq> None \<Longrightarrow> those (map f xs) = Some (map (\<lambda>x. the (f x)) xs)"
  by (induction xs) auto

text \<open>
  C3. For a list of registered, non-empty datasets the merger returns the concatenation of
  the datasets in input order, every dict tagged with the 0-based index of its dataset,
  nothing dropped and nothing reordered; the result is the same for every
  \<^verbatim>\<open>filter_empty\<close>, every \<^verbatim>\<open>min_keypoints\<close> and every pair of filter functions, since
  the filtered lists are bound to the loop variable only. The function asserts that at
  least one dataset is named and that no proposal files are given.
\<close>

theorem merger_concatenates_in_input_order:
  assumes names: "dataset_names \<noteq> []"
      and reg: "\<forall>n \<in> set dataset_names. \<exists>dicts. DatasetCatalog n = Some dicts \<and> dicts \<noteq> []"
  shows "get_detection_dataset_dicts_with_source DatasetCatalog fc fk
           dataset_names filter_empty min_keypoints None =
         Inr (concat (map (\<lambda>(source_id, name).
                             map (\<lambda>d. d\<lparr>dataset_source := source_id\<rparr>) (the (DatasetCatalog name)))
                          (enumerate 0 dataset_names)))"
proof -
  let ?dss = "map (\<lambda>n. the (DatasetCatalog n)) dataset_names"
  have th: "those (map DatasetCatalog dataset_names) = Some ?dss"
    using reg by (intro those_map_Some) auto
  have ne: "\<forall>dicts \<in> set ?dss. dicts \<noteq> []"
    using reg by auto
  have ex: "\<not> list_ex (\<lambda>dicts. dicts = []) ?dss"
    using ne by (auto simp: list_ex_iff)
  have en: "map (\<lambda>(source_id, dicts). tag_source source_id dicts) (enumerate k ?dss) =
            map (\<lambda>(source_id, name). map (\<lambda>d. d\<lparr>dataset_source := source_id\<rparr>) (the (DatasetCatalog name)))
                (enumerate k dataset_names)" for k
    by (induction dataset_names arbitrary: k) (simp_all add: tag_source_def)
  show ?thesis
    unfolding get_detection_dataset_dicts_with_source_def
    using names by (simp add: th ex tag_loop_nonempty [OF ne] filter_loop_id en del: those.simps)
qed

theorem merger_concatenates_in_input_order_witness:
  "[''a'', ''b''] \<noteq> [] \<and>
   [''a'' \<mapsto> [d0], ''b'' \<mapsto> [d0, d0]] ''a'' = Some [d0] \<and>
   [''a'' \<mapsto> [d0], ''b'' \<mapsto> [d0, d0]] ''b'' = Some [d0, d0] \<and>
   get_detection_dataset_dicts_with_source [''a'' \<mapsto> [d0], ''b'' \<mapsto> [d0, d0]]
     (\<lambda>ds. []) (\<lambda>ds k. []) [''a'', ''b''] True 3 (None :: unit option) =
     Inr [d0\<lparr>dataset_source := 0\<rparr>, d0\<lparr>dataset_source := 1\<rparr>, d0\<lparr>dataset_source := 1\<rparr>]"
  using merger_concatenates_in_input_order
          [of "[''a'', ''b'']" "[''a'' \<mapsto> [d0], ''b'' \<mapsto> [d0, d0]]" "\<lambda>ds. []" "\<lambda>ds k. []" True 3]
  by (simp add: enumerate_eq_zip)

section \<open>Properties of the batch grouper\<close>

lemma bucket_id_of_eq:
  "bucket_id_of d = bucket_id_of d' \<Longrightarrow>
   dataset_source d = dataset_source d' \<and> (width d > height d) = (width d' > height d')"
  unfolding bucket_id_of_def Let_def by (simp split: if_splits; presburger)

lemma same_bucket_homogeneous: "\<forall>d \<in> set b. bucket_id_of d = k \<Longrightarrow> homogeneous b"
proof -
  assume a: "\<forall>d \<in> set b. bucket_id_of d = k"
  show ?thesis
    unfolding homogeneous_def
  proof (intro ballI)
    fix d d' assume "d \<in> set b" "d' \<in> set b"
    with a have "bucket_id_of d = bucket_id_of d'" by simp
    then show "dataset_source d = dataset_source d' \<and> (width d > height d) = (width d' > height d')"
      by (rule bucket_id_of_eq)
  qed
qed

lemma buckets_inv_clear: "buckets_inv bs \<Longrightarrow> buckets_inv (bs[k := []])"
  by (cases "k < length bs") (auto simp: buckets_inv_def nth_list_update)

lemma buckets_inv_replicate: "buckets_inv (replicate n [])"
  by (simp add: buckets_inv_def)

lemma buckets_inv_append:
  "buckets_inv bs \<Longrightarrow> k < length bs \<Longrightarrow> bucket_id_of d = k \<Longrightarrow> buckets_inv (bs[k := bs ! k @ [d]])"
  by (auto simp: buckets_inv_def nth_list_update split: if_splits)

lemma MD_iter_batches:
  "buckets_inv (md_buckets self) \<Longrightarrow> b \<in> set (fst (MD_iter self ds)) \<Longrightarrow>
   int (length b) = md_batch_size self \<and> b \<noteq> [] \<and> (\<exists>k. \<forall>d \<in> set b. bucket_id_of d = k)"
proof (induction ds arbitrary: self)
  case Nil
  then show ?case by simp
next
  case (Cons d ds)
  let ?k = "bucket_id_of d"
  show ?case
  proof (cases "?k \<ge> length (md_buckets self)")
    case True
    with Cons.prems show ?thesis by simp
  next
    case False
    then have k: "?k < length (md_buckets self)" by simp
    let ?bucket = "md_buckets self ! ?k @ [d]"
    have here: "\<forall>x \<in> set ?bucket. bucket_id_of x = ?k"
      using Cons.prems(1) k by (auto simp: buckets_inv_def)
    show ?thesis
    proof (cases "int (length ?bucket) = md_batch_size self")
      case True
      let ?self' = "self\<lparr>md_buckets := (md_buckets self)[?k := []]\<rparr>"
      have inv': "buckets_inv (md_buckets ?self')"
        using Cons.prems(1) by (simp add: buckets_inv_clear)
      from Cons.prems(2) k True have "b = ?bucket \<or> b \<in> set (fst (MD_iter ?self' ds))"
        by (auto simp: Let_def split: prod.splits)
      then show ?thesis
      proof
        assume b: "b = ?bucket"
        have 1: "int (length b) = md_batch_size self" using True b by simp
        have 2: "b \<noteq> []" using b by simp
        have 3: "\<exists>k. \<forall>d \<in> set b. bucket_id_of d = k" using here b by blast
        from 1 2 3 show ?thesis by blast
      next
        assume "b \<in> set (fst (MD_iter ?self' ds))"
        from Cons.IH [OF inv' this] show ?thesis by simp
      qed
    next
      case False
      let ?self' = "self\<lparr>md_buckets := (md_buckets self)[?k := ?bucket]\<rparr>"
      have inv': "buckets_inv (md_buckets ?self')"
        using Cons.prems(1) k by (simp add: buckets_inv_append)
      from Cons.prems(2) k False have "b \<in> set (fst (MD_iter ?self' ds))"
        by (auto simp: Let_def)
      from Cons.IH [OF inv' this] show ?thesis by simp
    qed
  qed
qed

lemma DIFFMD_iter_batches:
  "buckets_inv (buckets self) \<Longrightarrow> b \<in> set (fst (DIFFMD_iter self ds)) \<Longrightarrow>
   b \<noteq> [] \<and> (\<exists>k. \<forall>d \<in> set b. bucket_id_of d = k) \<and>
   (\<forall>d \<in> set b. dataset_source d < length (batch_sizes self) \<and>
                 int (length b) = batch_sizes self ! dataset_source d)"
proof (induction ds arbitrary: self)
  case Nil
  then show ?case by simp
next
  case (Cons d ds)
  let ?k = "bucket_id_of d"
  show ?case
  proof (cases "?k \<ge> length (buckets self) \<or> dataset_source d \<ge> length (batch_sizes self)")
    case True
    then have "fst (DIFFMD_iter self (d # ds)) = []" by (auto simp: Let_def)
    with Cons.prems show ?thesis by simp
  next
    case False
    then have k: "?k < length (buckets self)"
      and src: "dataset_source d < length (batch_sizes self)" by simp_all
    let ?bucket = "buckets self ! ?k @ [d]"
    have here: "\<forall>x \<in> set ?bucket. bucket_id_of x = ?k"
      using Cons.prems(1) k by (auto simp: buckets_inv_def)
    then have srcs: "\<forall>x \<in> set ?bucket. dataset_source x = dataset_source d"
      using bucket_id_of_eq by blast
    show ?thesis
    proof (cases "int (length ?bucket) = batch_sizes self ! dataset_source d")
      case True
      let ?self' = "self\<lparr>buckets := (buckets self)[?k := []]\<rparr>"
      have inv': "buckets_inv (buckets ?self')"
        using Cons.prems(1) by (simp add: buckets_inv_clear)
      from Cons.prems(2) k src True have "b = ?bucket \<or> b \<in> set (fst (DIFFMD_iter ?self' ds))"
        by (auto simp: Let_def split: prod.splits)
      then show ?thesis
      proof
        assume b: "b = ?bucket"
        have 1: "b \<noteq> []" using b by simp
        have 2: "\<exists>k. \<forall>d \<in> set b. bucket_id_of d = k" using here b by blast
        have 3: "\<forall>x \<in> set b. dataset_source x < length (batch_sizes self) \<and>
                 int (length b) = batch_sizes self ! dataset_source x"
        proof
          fix x assume "x \<in> set b"
          with srcs b have "dataset_source x = dataset_source d" by blast
          with src True b show "dataset_source x < length (batch_sizes self) \<and>
                 int (length b) = batch_sizes self ! dataset_source x" by simp
        qed
        from 1 2 3 show ?thesis by blast
      next
        assume "b \<in> set (fst (DIFFMD_iter ?self' ds))"
        from Cons.IH [OF inv' this] show ?thesis by simp
      qed
    next
      case False
      let ?self' = "self\<lparr>buckets := (buckets self)[?k := ?bucket]\<rparr>"
      have inv': "buckets_inv (buckets ?self')"
        using Cons.prems(1) k by (simp add: buckets_inv_append)
      from Cons.prems(2) k src False have "b \<in> set (fst (DIFFMD_iter ?self' ds))"
        by (auto simp: Let_def)
      from Cons.IH [OF inv' this] show ?thesis by simp
    qed
  qed
qed


lemma MD_iter_no_error:
  "length (md_buckets self) = 2 * n \<Longrightarrow> \<forall>d \<in> set ds. dataset_source d < n \<Longrightarrow>
   \<exists>self'. snd (MD_iter self ds) = Inr self'"
proof (induction ds arbitrary: self)
  case Nil
  then show ?case by simp
next
  case (Cons d ds)
  have k: "bucket_id_of d < length (md_buckets self)"
    using Cons.prems by (simp add: bucket_id_of_def)
  have rest: "\<forall>d \<in> set ds. dataset_source d < n" using Cons.prems(2) by simp
  have *: "\<exists>self'. snd (MD_iter (self\<lparr>md_buckets := (md_buckets self)[bucket_id_of d := v]\<rparr>) ds) = Inr self'" for v
    using Cons.prems(1) by (intro Cons.IH [OF _ rest]) simp
  show ?case
    using k * [of "[]"] * [of "md_buckets self ! bucket_id_of d @ [d]"]
    by (auto simp: Let_def split: prod.splits)
qed

lemma DIFFMD_iter_no_error:
  "length (buckets self) = 2 * n \<Longrightarrow>
   \<forall>d \<in> set ds. dataset_source d < n \<and> dataset_source d < length (batch_sizes self) \<Longrightarrow>
   \<exists>self'. snd (DIFFMD_iter self ds) = Inr self'"
proof (induction ds arbitrary: self)
  case Nil
  then show ?case by simp
next
  case (Cons d ds)
  have k: "bucket_id_of d < length (buckets self)"
    using Cons.prems by (simp add: bucket_id_of_def)
  have src: "dataset_source d < length (batch_sizes self)" using Cons.prems(2) by simp
  have *: "\<exists>self'. snd (DIFFMD_iter (self\<lparr>buckets := (buckets self)[bucket_id_of d := v]\<rparr>) ds) = Inr self'" for v
    using Cons.prems by (intro Cons.IH) simp_all
  show ?case
    using k src * [of "[]"] * [of "buckets self ! bucket_id_of d @ [d]"]
    by (auto simp: Let_def split: prod.splits)
qed

lemma MD_iter_nonpositive: "md_batch_size self \<le> 0 \<Longrightarrow> fst (MD_iter self ds) = []"
  by (induction ds arbitrary: self) (auto simp: Let_def)


text \<open>
  C8. Every batch that either grouper yields, on any stream of dicts and from freshly built
  buckets, is homogeneous (one dataset source, one aspect class), is not empty, and has
  exactly the target length: \<^verbatim>\<open>batch_size\<close> in the uniform variant, the entry of
  \<^verbatim>\<open>dataset_bs\<close> for the source of its members in the per-dataset variant. This holds for
  the batches yielded before an error ends the iteration as well.
\<close>

theorem emitted_batches_homogeneous_and_full:
  "(\<forall>b \<in> set (fst (MD_iter (MDAspectRatioGroupedDataset_init batch_size num_datasets) ds)).
      homogeneous b \<and> b \<noteq> [] \<and> int (length b) = batch_size) \<and>
   (\<forall>b \<in> set (fst (DIFFMD_iter (DIFFMDAspectRatioGroupedDataset_init dataset_bs num_datasets) ds)).
      homogeneous b \<and> b \<noteq> [] \<and>
      (\<forall>d \<in> set b. dataset_source d < length dataset_bs \<and>
                    int (length b) = dataset_bs ! dataset_source d))"
proof (intro conjI ballI)
  fix b
  assume b: "b \<in> set (fst (MD_iter (MDAspectRatioGroupedDataset_init batch_size num_datasets) ds))"
  have inv: "buckets_inv (md_buckets (MDAspectRatioGroupedDataset_init batch_size num_datasets))"
    by (simp add: MDAspectRatioGroupedDataset_init_def buckets_inv_replicate)
  note r = MD_iter_batches [OF inv b]
  from r show "homogeneous b" by (blast intro: same_bucket_homogeneous)
  from r show "b \<noteq> []" by blast
  from r show "int (length b) = batch_size" by (simp add: MDAspectRatioGroupedDataset_init_def)
next
  fix b
  assume b: "b \<in> set (fst (DIFFMD_iter (DIFFMDAspectRatioGroupedDataset_init dataset_bs num_datasets) ds))"
  have inv: "buckets_inv (buckets (DIFFMDAspectRatioGroupedDataset_init dataset_bs num_datasets))"
    by (simp add: DIFFMDAspectRatioGroupedDataset_init_def buckets_inv_replicate)
  note r = DIFFMD_iter_batches [OF inv b]
  from r show "homogeneous b" by (blast intro: same_bucket_homogeneous)
  from r show "b \<noteq> []" by blast
  fix d assume d: "d \<in> set b"
  from r d have "dataset_source d < length (batch_sizes (DIFFMDAspectRatioGroupedDataset_init dataset_bs num_datasets))
     \<and> int (length b) = batch_sizes (DIFFMDAspectRatioGroupedDataset_init dataset_bs num_datasets) ! dataset_source d"
    by blast
  then show "dataset_source d < length dataset_bs" "int (length b) = dataset_bs ! dataset_source d"
    by (simp_all add: DIFFMDAspectRatioGroupedDataset_init_def)
qed

theorem emitted_batches_homogeneous_and_full_witness:
  "fst (MD_iter (MDAspectRatioGroupedDataset_init 2 1) [e_wide, e_tall, e_wide2]) = [[e_wide, e_wide2]] \<and>
   fst (DIFFMD_iter (DIFFMDAspectRatioGroupedDataset_init [2] 1) [e_wide, e_tall, e_wide2]) = [[e_wide, e_wide2]] \<and>
   homogeneous [e_wide, e_wide2] \<and> dataset_source e_wide < length [2::int] \<and>
   int (length [e_wide, e_wide2]) = [2] ! dataset_source e_wide"
proof -
  have 1: "fst (MD_iter (MDAspectRatioGroupedDataset_init 2 1) [e_wide, e_tall, e_wide2]) = [[e_wide, e_wide2]]"
    by (simp add: MDAspectRatioGroupedDataset_init_def bucket_id_of_def e_wide_def e_tall_def e_wide2_def)
  have 2: "fst (DIFFMD_iter (DIFFMDAspectRatioGroupedDataset_init [2] 1) [e_wide, e_tall, e_wide2]) = [[e_wide, e_wide2]]"
    by (simp add: DIFFMDAspectRatioGroupedDataset_init_def bucket_id_of_def e_wide_def e_tall_def e_wide2_def)
  from emitted_batches_homogeneous_and_full [of 2 1 "[e_wide, e_tall, e_wide2]" "[2]"] 1 2
  show ?thesis by simp
qed

text \<open>
  C10, the claim as stated fails: iteration raises \<^verbatim>\<open>IndexError\<close> on a dict with width,
  height and dataset source when \<^verbatim>\<open>dataset_bs\<close> has no entry for the source (the loader's
  default is the empty list), or when the source is not below \<^verbatim>\<open>num_datasets\<close>.
\<close>

theorem grouper_raises_counterexample:
  "snd (DIFFMD_iter (DIFFMDAspectRatioGroupedDataset_init [] 1) [e_wide]) = Inl IndexError \<and>
   snd (MD_iter (MDAspectRatioGroupedDataset_init 2 1) [d0]) = Inl IndexError"
  by (simp add: DIFFMDAspectRatioGroupedDataset_init_def MDAspectRatioGroupedDataset_init_def
        bucket_id_of_def e_wide_def d0_def)

text \<open>
  C10, amended. When every dict's source is below \<^verbatim>\<open>num_datasets\<close> (and, in the
  per-dataset variant, an index of \<^verbatim>\<open>dataset_bs\<close>), iteration from freshly built buckets
  raises nothing, whatever the target sizes are. The constructors check nothing, and with
  a target that is zero or negative no batch is ever yielded: none at all in the uniform
  variant, none with members of that dataset in the per-dataset variant.
\<close>

theorem grouper_total_on_indexed_sources:
  "((\<forall>d \<in> set ds. dataset_source d < num_datasets) \<longrightarrow>
      (\<exists>self'. snd (MD_iter (MDAspectRatioGroupedDataset_init batch_size num_datasets) ds) = Inr self')) \<and>
   ((\<forall>d \<in> set ds. dataset_source d < num_datasets \<and> dataset_source d < length dataset_bs) \<longrightarrow>
      (\<exists>self'. snd (DIFFMD_iter (DIFFMDAspectRatioGroupedDataset_init dataset_bs num_datasets) ds) = Inr self')) \<and>
   (batch_size \<le> 0 \<longrightarrow>
      fst (MD_iter (MDAspectRatioGroupedDataset_init batch_size num_datasets) ds) = []) \<and>
   (\<forall>i. i < length dataset_bs \<and> dataset_bs ! i \<le> 0 \<longrightarrow>
      (\<forall>b \<in> set (fst (DIFFMD_iter (DIFFMDAspectRatioGroupedDataset_init dataset_bs num_datasets) ds)).
         \<forall>d \<in> set b. dataset_source d \<noteq> i))"
proof (intro conjI impI allI ballI)
  assume "\<forall>d \<in> set ds. dataset_source d < num_datasets"
  then show "\<exists>self'. snd (MD_iter (MDAspectRatioGroupedDataset_init batch_size num_datasets) ds) = Inr self'"
    by (intro MD_iter_no_error) (simp_all add: MDAspectRatioGroupedDataset_init_def)
next
  assume "\<forall>d \<in> set ds. dataset_source d < num_datasets \<and> dataset_source d < length dataset_bs"
  then show "\<exists>self'. snd (DIFFMD_iter (DIFFMDAspectRatioGroupedDataset_init dataset_bs num_datasets) ds) = Inr self'"
    by (intro DIFFMD_iter_no_error [where n = num_datasets])
       (simp_all add: DIFFMDAspectRatioGroupedDataset_init_def)
next
  assume "batch_size \<le> 0"
  then show "fst (MD_iter (MDAspectRatioGroupedDataset_init batch_size num_datasets) ds) = []"
    by (intro MD_iter_nonpositive) (simp add: MDAspectRatioGroupedDataset_init_def)
next
  fix i b d
  assume i: "i < length dataset_bs \<and> dataset_bs ! i \<le> 0"
    and b: "b \<in> set (fst (DIFFMD_iter (DIFFMDAspectRatioGroupedDataset_init dataset_bs num_datasets) ds))"
    and d: "d \<in> set b"
  have inv: "buckets_inv (buckets (DIFFMDAspectRatioGroupedDataset_init dataset_bs num_datasets))"
    by (simp add: DIFFMDAspectRatioGroupedDataset_init_def buckets_inv_replicate)
  from DIFFMD_iter_batches [OF inv b] d
  have "b \<noteq> []" and "int (length b) = dataset_bs ! dataset_source d"
    by (simp_all add: DIFFMDAspectRatioGroupedDataset_init_def)
  then have "dataset_bs ! dataset_source d > 0" by (cases b) auto
  with i show "dataset_source d \<noteq> i" by auto
qed

theorem grouper_total_on_indexed_sources_witness:
  "snd (MD_iter (MDAspectRatioGroupedDataset_init 0 1) [e_wide, e_tall]) =
     Inr \<lparr>md_batch_size = 0, md_buckets = [[e_wide], [e_tall]]\<rparr> \<and>
   fst (MD_iter (MDAspectRatioGroupedDataset_init 0 1) [e_wide, e_tall]) = [] \<and>
   snd (DIFFMD_iter (DIFFMDAspectRatioGroupedDataset_init [0] 1) [e_wide, e_tall]) =
     Inr \<lparr>batch_sizes = [0], buckets = [[e_wide], [e_tall]]\<rparr> \<and>
   fst (DIFFMD_iter (DIFFMDAspectRatioGroupedDataset_init [0] 1) [e_wide, e_tall]) = []"
  using grouper_total_on_indexed_sources [of "[e_wide, e_tall]" 1 0 "[0]"]
  by (simp add: DIFFMDAspectRatioGroupedDataset_init_def MDAspectRatioGroupedDataset_init_def
        bucket_id_of_def e_wide_def e_tall_def numeral_2_eq_2)

section \<open>Properties of the sampler's iteration\<close>

lemma islice_from_length_nth:
  "0 < step \<Longrightarrow>
   (k < length (islice_from skip step xs) \<longleftrightarrow> skip + k * step < length xs) \<and>
   (skip + k * step < length xs \<longrightarrow> islice_from skip step xs ! k = xs ! (skip + k * step))"
proof (induction xs arbitrary: skip k)
  case Nil
  then show ?case by simp
next
  case (Cons x xs)
  show ?case
  proof (cases "skip = 0")
    case True
    show ?thesis
    proof (cases k)
      case 0
      with True show ?thesis by simp
    next
      case (Suc k')
      have eq: "Suc k' * step = Suc (step - 1 + k' * step)" using Cons.prems by simp
      from Cons.IH [OF Cons.prems, of k' "step - 1"] True Suc show ?thesis
        by (simp add: eq del: mult_Suc)
    qed
  next
    case False
    then obtain m where m: "skip = Suc m" by (cases skip) auto
    from Cons.IH [OF Cons.prems, of k m] m show ?thesis by simp
  qed
qed

lemma islice_from_map: "islice_from skip step (map f xs) = map f (islice_from skip step xs)"
  by (induction xs arbitrary: skip) auto

lemma islice_from_positions:
  "islice_from skip step xs = map (\<lambda>p. xs ! p) (islice_from skip step [0..<length xs])"
proof -
  have "xs = map (\<lambda>p. xs ! p) [0..<length xs]" by (simp add: map_nth)
  then have "islice_from skip step xs = islice_from skip step (map (\<lambda>p. xs ! p) [0..<length xs])"
    by simp
  then show ?thesis by (simp only: islice_from_map)
qed

lemma set_islice_from_positions:
  assumes "0 < step"
  shows "set (islice_from skip step [0..<n]) = {p. p < n \<and> (\<exists>k. p = skip + k * step)}"
proof -
  let ?ys = "islice_from skip step [0..<n]"
  have L: "(k < length ?ys \<longleftrightarrow> skip + k * step < n) \<and>
        (skip + k * step < n \<longrightarrow> ?ys ! k = skip + k * step)" for k
    using islice_from_length_nth [OF assms, of k skip "[0..<n]"] by auto
  show ?thesis
  proof (intro set_eqI iffI)
    fix p assume "p \<in> set ?ys"
    then obtain k where "k < length ?ys" "?ys ! k = p" by (auto simp: in_set_conv_nth)
    with L [of k] show "p \<in> {p. p < n \<and> (\<exists>k. p = skip + k * step)}" by auto
  next
    fix p assume "p \<in> {p. p < n \<and> (\<exists>k. p = skip + k * step)}"
    then obtain k where k: "p < n" "p = skip + k * step" by auto
    with L [of k] have "k < length ?ys" "?ys ! k = p" by auto
    then show "p \<in> set ?ys" by (auto simp: in_set_conv_nth)
  qed
qed

lemma positions_mod:
  assumes "r < (w::nat)"
  shows "(\<exists>k. p = r + k * w) \<longleftrightarrow> p mod w = r"
proof
  assume "\<exists>k. p = r + k * w"
  then show "p mod w = r" using assms by auto
next
  assume "p mod w = r"
  then have "p = r + (p div w) * w" by (metis div_mult_mod_eq add.commute)
  then show "\<exists>k. p = r + k * w" ..
qed


lemma islice_from_append:
  "\<exists>skip'. islice_from skip step (xs @ ys) = islice_from skip step xs @ islice_from skip' step ys"
  by (induction xs arbitrary: skip) auto

lemma infinite_indices_loop_extend:
  "\<exists>rest. fst (infinite_indices_loop multinomial self (rounds + m) g) =
          fst (infinite_indices_loop multinomial self rounds g) @ rest"
proof (induction rounds arbitrary: g)
  case 0
  then show ?case by simp
next
  case (Suc rounds)
  show ?case
  proof (cases "multinomial (mds_weights self) (mds_sample_epoch_size self) g")
    case (Inl e)
    then show ?thesis by simp
  next
    case (Inr p)
    obtain ids g' where p: "p = (ids, g')" by (cases p)
    from Suc.IH [of g'] obtain rest where
      "fst (infinite_indices_loop multinomial self (rounds + m) g') =
       fst (infinite_indices_loop multinomial self rounds g') @ rest" ..
    with Inr p show ?thesis by (auto split: prod.splits)
  qed
qed

lemma infinite_indices_loop_productive:
  assumes "\<forall>g. \<exists>ids g'. multinomial (mds_weights self) (mds_sample_epoch_size self) g = Inr (ids, g') \<and>
                 length ids = mds_sample_epoch_size self"
  shows "length (fst (infinite_indices_loop multinomial self rounds g)) = rounds * mds_sample_epoch_size self \<and>
         snd (infinite_indices_loop multinomial self rounds g) = None"
proof (induction rounds arbitrary: g)
  case 0
  then show ?case by simp
next
  case (Suc rounds)
  from assms obtain ids g' where
    m: "multinomial (mds_weights self) (mds_sample_epoch_size self) g = Inr (ids, g')"
    and l: "length ids = mds_sample_epoch_size self" by blast
  from Suc.IH [of g'] m l show ?case by (auto split: prod.splits)
qed

lemma infinite_indices_loop_cong:
  "mds_weights s1 = mds_weights s2 \<Longrightarrow> mds_sample_epoch_size s1 = mds_sample_epoch_size s2 \<Longrightarrow>
   infinite_indices_loop multinomial s1 rounds g = infinite_indices_loop multinomial s2 rounds g"
  by (induction rounds arbitrary: g) (simp_all split: sum.splits prod.splits)


lemma set_consumed_positions:
  "0 < w \<Longrightarrow> r < w \<Longrightarrow> set (consumed_positions r w n) = {p. p < n \<and> p mod w = r}"
  unfolding consumed_positions_def
  by (simp add: set_islice_from_positions positions_mod)

lemma iter_fst:
  "0 < mds_world_size self \<Longrightarrow>
   fst (MultiDatasetSampler_iter ms mn self rounds) =
   islice_from (mds_rank self) (mds_world_size self) (fst (infinite_indices ms mn self rounds))"
  by (simp add: MultiDatasetSampler_iter_def split: prod.splits)

lemma iter_snd:
  "0 < mds_world_size self \<Longrightarrow>
   snd (MultiDatasetSampler_iter ms mn self rounds) = snd (infinite_indices ms mn self rounds)"
  by (simp add: MultiDatasetSampler_iter_def split: prod.splits)

text \<open>
  C6. Let \<open>D\<close> be what \<^verbatim>\<open>_infinite_indices\<close> has yielded after a number of rounds; it is
  the same for every rank. With a positive world size \<open>W\<close>, the iterator of rank \<open>r\<close>
  yields the elements of \<open>D\<close> at the positions \<open>r\<close>, \<open>r + W\<close>, \<open>r + 2W\<close>, ... and no
  others: its \<open>k\<close>-th element exists exactly when position \<open>r + k * W\<close> has been drawn, and
  is \<open>D[r + k * W]\<close>; further rounds only extend what was yielded. For two different ranks
  below \<open>W\<close> the consumed positions are disjoint, and over all ranks below \<open>W\<close> they are
  all positions. When \<^verbatim>\<open>torch.multinomial\<close> returns \<^verbatim>\<open>sample_epoch_size\<close> indices at
  each call and this number is positive, every element of the iterator is reached after
  enough rounds, with no error.
\<close>

theorem rank_reads_every_world_size_th_position:
  assumes W: "0 < mds_world_size self"
  shows
  "(let D = fst (infinite_indices ms mn self rounds);
        r = mds_rank self; W = mds_world_size self;
        out = fst (MultiDatasetSampler_iter ms mn self rounds)
    in out = map (\<lambda>p. D ! p) (consumed_positions r W (length D)) \<and>
       (\<forall>k. (k < length out \<longleftrightarrow> r + k * W < length D) \<and>
            (k < length out \<longrightarrow> out ! k = D ! (r + k * W))) \<and>
       (\<forall>r'. fst (infinite_indices ms mn (self\<lparr>mds_rank := r'\<rparr>) rounds) = D) \<and>
       (\<forall>m. take (length out) (fst (MultiDatasetSampler_iter ms mn self (rounds + m))) = out) \<and>
       (\<forall>n r1 r2. r1 < W \<and> r2 < W \<and> r1 \<noteq> r2 \<longrightarrow>
            set (consumed_positions r1 W n) \<inter> set (consumed_positions r2 W n) = {}) \<and>
       (\<forall>n. (\<Union>r' \<in> {..<W}. set (consumed_positions r' W n)) = {..<n}) \<and>
       ((\<forall>g. \<exists>ids g'. mn (mds_weights self) (mds_sample_epoch_size self) g = Inr (ids, g') \<and>
                       length ids = mds_sample_epoch_size self) \<and>
        0 < mds_sample_epoch_size self \<longrightarrow>
        (\<forall>k. \<exists>rounds'. k < length (fst (MultiDatasetSampler_iter ms mn self rounds')) \<and>
                        snd (MultiDatasetSampler_iter ms mn self rounds') = None)))"
proof -
  let ?D = "fst (infinite_indices ms mn self rounds)"
  let ?r = "mds_rank self" and ?W = "mds_world_size self"
  let ?out = "fst (MultiDatasetSampler_iter ms mn self rounds)"
  have out: "?out = islice_from ?r ?W ?D" by (rule iter_fst [OF W])
  have 1: "?out = map (\<lambda>p. ?D ! p) (consumed_positions ?r ?W (length ?D))"
    unfolding out consumed_positions_def by (rule islice_from_positions)
  have 2: "(k < length ?out \<longleftrightarrow> ?r + k * ?W < length ?D) \<and>
           (k < length ?out \<longrightarrow> ?out ! k = ?D ! (?r + k * ?W))" for k
    unfolding out using islice_from_length_nth [OF W, of k ?r ?D] by blast
  have 3: "fst (infinite_indices ms mn (self\<lparr>mds_rank := r'\<rparr>) rounds) = ?D" for r'
    unfolding infinite_indices_def
    by (simp add: infinite_indices_loop_cong [of "self\<lparr>mds_rank := r'\<rparr>" self])
  have 4: "take (length ?out) (fst (MultiDatasetSampler_iter ms mn self (rounds + m))) = ?out" for m
  proof -
    obtain rest where "fst (infinite_indices ms mn self (rounds + m)) = ?D @ rest"
      unfolding infinite_indices_def
      using infinite_indices_loop_extend [of mn self rounds m "ms (mds_seed self)"] by blast
    then have "fst (MultiDatasetSampler_iter ms mn self (rounds + m)) = islice_from ?r ?W (?D @ rest)"
      by (simp add: iter_fst [OF W])
    moreover obtain skip' where
      "islice_from ?r ?W (?D @ rest) = islice_from ?r ?W ?D @ islice_from skip' ?W rest"
      using islice_from_append by blast
    ultimately show ?thesis by (simp add: out)
  qed
  have 5: "set (consumed_positions r1 ?W n) \<inter> set (consumed_positions r2 ?W n) = {}"
    if "r1 < ?W \<and> r2 < ?W \<and> r1 \<noteq> r2" for n r1 r2
    using that by (auto simp: set_consumed_positions [OF W])
  have 6: "(\<Union>r' \<in> {..<?W}. set (consumed_positions r' ?W n)) = {..<n}" for n
  proof (intro set_eqI iffI)
    fix p assume "p \<in> (\<Union>r' \<in> {..<?W}. set (consumed_positions r' ?W n))"
    then show "p \<in> {..<n}" by (auto simp: set_consumed_positions [OF W])
  next
    fix p assume "p \<in> {..<n}"
    moreover have "p mod ?W < ?W" using W by simp
    ultimately have "p \<in> set (consumed_positions (p mod ?W) ?W n)"
      by (simp add: set_consumed_positions [OF W])
    then show "p \<in> (\<Union>r' \<in> {..<?W}. set (consumed_positions r' ?W n))"
      using \<open>p mod ?W < ?W\<close> by blast
  qed
  have 7: "\<exists>rounds'. k < length (fst (MultiDatasetSampler_iter ms mn self rounds')) \<and>
                     snd (MultiDatasetSampler_iter ms mn self rounds') = None"
    if mn: "\<forall>g. \<exists>ids g'. mn (mds_weights self) (mds_sample_epoch_size self) g = Inr (ids, g') \<and>
                       length ids = mds_sample_epoch_size self"
      and n: "0 < mds_sample_epoch_size self" for k
  proof -
    let ?R = "Suc (?r + k * ?W)"
    let ?D' = "fst (infinite_indices ms mn self ?R)"
    from infinite_indices_loop_productive [of mn self ?R "ms (mds_seed self)"] mn
    have len: "length ?D' = ?R * mds_sample_epoch_size self"
      and none: "snd (infinite_indices ms mn self ?R) = None"
      by (simp_all add: infinite_indices_def)
    have "?R \<le> ?R * mds_sample_epoch_size self"
      using n by (cases "mds_sample_epoch_size self") simp_all
    with len have "?r + k * ?W < length ?D'" by simp
    with islice_from_length_nth [OF W, of k ?r ?D']
    have "k < length (fst (MultiDatasetSampler_iter ms mn self ?R))"
      by (simp add: iter_fst [OF W])
    with none show ?thesis by (auto simp: iter_snd [OF W])
  qed
  show ?thesis
    unfolding Let_def using 1 2 3 4 5 6 7 by blast
qed


lemma ex_stream:
  "fst (infinite_indices nat ex_multinomial ex_sampler 2) = [1, 2, 0, 1, 2, 0]"
  by (simp add: infinite_indices_def ex_multinomial_def ex_sampler_def numeral_2_eq_2
        upt_conv_Cons)

theorem rank_reads_every_world_size_th_position_witness:
  "0 < mds_world_size ex_sampler \<and>
   fst (infinite_indices nat ex_multinomial ex_sampler 2) = [1, 2, 0, 1, 2, 0] \<and>
   consumed_positions (mds_rank ex_sampler) (mds_world_size ex_sampler) 6 = [1, 3, 5] \<and>
   fst (MultiDatasetSampler_iter nat ex_multinomial ex_sampler 2) = [2, 1, 0]"
proof -
  have W: "0 < mds_world_size ex_sampler" by (simp add: ex_sampler_def)
  have P: "consumed_positions (mds_rank ex_sampler) (mds_world_size ex_sampler) 6 = [1, 3, 5]"
    by (simp add: consumed_positions_def ex_sampler_def upt_conv_Cons)
  from rank_reads_every_world_size_th_position [OF W, of nat ex_multinomial 2]
  have "fst (MultiDatasetSampler_iter nat ex_multinomial ex_sampler 2) =
        map (\<lambda>p. fst (infinite_indices nat ex_multinomial ex_sampler 2) ! p)
          (consumed_positions (mds_rank ex_sampler) (mds_world_size ex_sampler)
             (length (fst (infinite_indices nat ex_multinomial ex_sampler 2))))"
    unfolding Let_def by (rule conjunct1)
  then have "fst (MultiDatasetSampler_iter nat ex_multinomial ex_sampler 2) =
        map (\<lambda>p. [1, 2, 0, 1, 2, 0] ! p)
          (consumed_positions (mds_rank ex_sampler) (mds_world_size ex_sampler)
             (length [1, 2, 0, 1, 2, 0 :: nat]))"
    by (simp only: ex_stream)
  also have "\<dots> = [2, 1, 0]"
    by (simp add: consumed_positions_def ex_sampler_def upt_conv_Cons)
  finally have "fst (MultiDatasetSampler_iter nat ex_multinomial ex_sampler 2) = [2, 1, 0]" .
  with W P ex_stream show ?thesis by simp
qed

section \<open>Properties of the construction\<close>

lemma count_sizes_counts:
  "\<forall>d \<in> set ds. dataset_source d < length sizes \<Longrightarrow>
   count_sizes sizes ds =
   Inr (map (\<lambda>i. sizes ! i + length (filter (\<lambda>d. dataset_source d = i) ds)) [0..<length sizes])"
proof (induction ds arbitrary: sizes)
  case Nil
  then show ?case by (simp add: map_nth)
next
  case (Cons d ds)
  let ?sizes' = "sizes[dataset_source d := sizes ! dataset_source d + 1]"
  have src: "dataset_source d < length sizes" using Cons.prems by simp
  have "\<forall>d \<in> set ds. dataset_source d < length ?sizes'" using Cons.prems by simp
  from Cons.IH [OF this]
  have "count_sizes ?sizes' ds =
        Inr (map (\<lambda>i. ?sizes' ! i + length (filter (\<lambda>d. dataset_source d = i) ds)) [0..<length sizes])"
    by simp
  moreover have "map (\<lambda>i. ?sizes' ! i + length (filter (\<lambda>d. dataset_source d = i) ds)) [0..<length sizes] =
        map (\<lambda>i. sizes ! i + length (filter (\<lambda>d. dataset_source d = i) (d # ds))) [0..<length sizes]"
    by (rule map_cong) (simp_all add: nth_list_update)
  ultimately show ?case using src by simp
qed

lemma count_sizes_length: "count_sizes sizes ds = Inr sizes' \<Longrightarrow> length sizes' = length sizes"
proof (induction ds arbitrary: sizes)
  case Nil
  then show ?case by simp
next
  case (Cons d ds)
  from Cons.prems have "count_sizes (sizes[dataset_source d := sizes ! dataset_source d + 1]) ds = Inr sizes'"
    by (simp split: if_splits)
  from Cons.IH [OF this] show ?case by simp
qed

lemma count_sizes_sources:
  "count_sizes sizes ds = Inr sizes' \<Longrightarrow> \<forall>d \<in> set ds. dataset_source d < length sizes"
proof (induction ds arbitrary: sizes)
  case Nil
  then show ?case by simp
next
  case (Cons d ds)
  from Cons.prems have src: "dataset_source d < length sizes"
    and "count_sizes (sizes[dataset_source d := sizes ! dataset_source d + 1]) ds = Inr sizes'"
    by (simp_all split: if_splits)
  from Cons.IH [OF this(2)] src show ?case by simp
qed


lemma length_filter_tag_source:
  "length (filter (\<lambda>d. dataset_source d = i) (tag_source k ds)) = (if i = k then length ds else 0)"
  by (induction ds) (simp_all add: tag_source_def)

lemma length_filter_tagged:
  "length (filter (\<lambda>d. dataset_source d = i)
            (concat (map (\<lambda>(source_id, dicts). tag_source source_id dicts) (enumerate k dss)))) =
   (if k \<le> i \<and> i < k + length dss then length (dss ! (i - k)) else 0)"
proof (induction dss arbitrary: k)
  case Nil
  show ?case by auto
next
  case (Cons ds dss)
  show ?case
  proof (cases "i = k")
    case True
    with Cons.IH [of "Suc k"] show ?thesis by (simp add: length_filter_tag_source)
  next
    case False
    show ?thesis
    proof (cases "Suc k \<le> i \<and> i < Suc k + length dss")
      case True
      then have "i - k = Suc (i - Suc k)" by arith
      with Cons.IH [of "Suc k"] True False show ?thesis
        by (simp add: length_filter_tag_source)
    next
      case False
      with Cons.IH [of "Suc k"] \<open>i \<noteq> k\<close> show ?thesis
        by (auto simp: length_filter_tag_source)
    qed
  qed
qed

lemma source_tagged:
  "d \<in> set (concat (tagged_datasets dss)) \<Longrightarrow> dataset_source d < length dss"
  by (auto simp: tagged_datasets_def tag_source_def in_set_enumerate_eq)

lemma count_sizes_merged:
  "count_sizes (replicate (length dss) 0) (concat (tagged_datasets dss)) = Inr (map length dss)"
proof -
  have src: "\<forall>d \<in> set (concat (tagged_datasets dss)).
               dataset_source d < length (replicate (length dss) (0::nat))"
    using source_tagged by simp
  have "map (\<lambda>i. replicate (length dss) 0 ! i +
               length (filter (\<lambda>d. dataset_source d = i) (concat (tagged_datasets dss))))
             [0..<length dss] = map (\<lambda>i. length (dss ! i)) [0..<length dss]"
    by (rule map_cong) (simp_all add: tagged_datasets_def length_filter_tagged)
  also have "\<dots> = map length dss"
    by (rule nth_equalityI) simp_all
  finally show ?thesis
    using count_sizes_counts [OF src] by simp
qed


lemma rfs_loop_concat:
  "rfs_loop (pre @ concat xss) use_rfs dataset_ann thr i (length pre) (map length xss) =
   per_dataset (rfs_body use_rfs dataset_ann thr) i xss"
proof (induction xss arbitrary: pre i)
  case Nil
  show ?case by simp
next
  case (Cons xs xss)
  have "rfs_loop ((pre @ xs) @ concat xss) use_rfs dataset_ann thr (Suc i) (length (pre @ xs))
          (map length xss) = per_dataset (rfs_body use_rfs dataset_ann thr) (Suc i) xss"
    by (rule Cons.IH)
  then show ?case by (simp split: sum.splits)
qed

lemma cas_loop_concat:
  "cas_loop (pre @ concat xss) use_cas i (length pre) (map length xss) =
   per_dataset (cas_body use_cas) i xss"
proof (induction xss arbitrary: pre i)
  case Nil
  show ?case by simp
next
  case (Cons xs xss)
  have "cas_loop ((pre @ xs) @ concat xss) use_cas (Suc i) (length (pre @ xs)) (map length xss) =
        per_dataset (cas_body use_cas) (Suc i) xss"
    by (rule Cons.IH)
  then show ?case by (simp split: sum.splits)
qed

lemma per_dataset_Inr:
  "per_dataset body i xss = Inr ys \<Longrightarrow>
   length ys = length xss \<and>
   (\<forall>k < length xss. body (i + k) (xss ! k) (length (xss ! k)) = Inr (ys ! k))"
proof (induction xss arbitrary: i ys)
  case Nil
  then show ?case by simp
next
  case (Cons xs xss)
  from Cons.prems obtain y ys' where y: "body i xs (length xs) = Inr y"
    and ys': "per_dataset body (Suc i) xss = Inr ys'" and ys: "ys = y # ys'"
    by (auto split: sum.splits)
  from Cons.IH [OF ys'] have len: "length ys' = length xss"
    and rest: "\<And>k. k < length xss \<Longrightarrow> body (Suc i + k) (xss ! k) (length (xss ! k)) = Inr (ys' ! k)"
    by auto
  show ?case
  proof (intro conjI allI impI)
    show "length ys = length (xs # xss)" using len ys by simp
  next
    fix k assume "k < length (xs # xss)"
    then show "body (i + k) ((xs # xss) ! k) (length ((xs # xss) ! k)) = Inr (ys ! k)"
      using y ys rest by (cases k) auto
  qed
qed

lemma per_dataset_all:
  "\<forall>k < length xss. body (i + k) (xss ! k) (length (xss ! k)) = Inr (f (i + k) (xss ! k)) \<Longrightarrow>
   per_dataset body i xss = Inr (map (\<lambda>(k, xs). f k xs) (enumerate i xss))"
proof (induction xss arbitrary: i)
  case Nil
  show ?case by simp
next
  case (Cons xs xss)
  from Cons.prems have here: "body i xs (length xs) = Inr (f i xs)" by force
  have "\<forall>k < length xss. body (Suc i + k) (xss ! k) (length (xss ! k)) = Inr (f (Suc i + k) (xss ! k))"
  proof (intro allI impI)
    fix k assume "k < length xss"
    then have "Suc k < length (xs # xss)" by simp
    with Cons.prems have "body (i + Suc k) ((xs # xss) ! Suc k) (length ((xs # xss) ! Suc k)) =
        Inr (f (i + Suc k) ((xs # xss) ! Suc k))" by blast
    then show "body (Suc i + k) (xss ! k) (length (xss ! k)) = Inr (f (Suc i + k) (xss ! k))"
      by simp
  qed
  from Cons.IH [OF this] here show ?case by simp
qed

lemma tensor_mul_concat:
  "list_all2 (\<lambda>a b. length a = length b) A B \<Longrightarrow>
   tensor_mul (concat A) (concat B) = concat (map2 tensor_mul A B)"
  by (induction A B rule: list_all2_induct) (simp_all add: tensor_mul_def)

lemma list_all2_concat:
  "list_all2 (list_all2 P) xss yss \<Longrightarrow> list_all2 P (concat xss) (concat yss)"
  by (induction xss yss rule: list_all2_induct) (simp_all add: list_all2_appendI)

lemma dataset_weight_groups:
  "dataset_weight dataset_ratio sizes =
   concat (map (\<lambda>(r, s). replicate s (real (Max (set sizes)) / real s * r / sum_list dataset_ratio))
             (zip dataset_ratio sizes))"
  by (simp add: dataset_weight_def)


lemma map_length_tagged: "map length (tagged_datasets dss) = map length dss"
proof -
  have "map length (map (\<lambda>(source_id, dicts). tag_source source_id dicts) (enumerate k dss)) =
        map length dss" for k
    by (induction dss arbitrary: k) (simp_all add: tag_source_def)
  then show ?thesis by (simp add: tagged_datasets_def)
qed

lemma length_tagged [simp]: "length (tagged_datasets dss) = length dss"
  by (simp add: tagged_datasets_def)

lemma nth_tagged: "i < length dss \<Longrightarrow> tagged_datasets dss ! i = tag_source i (dss ! i)"
  by (simp add: tagged_datasets_def nth_enumerate_eq)

lemma init_merged:
  assumes ne: "dss \<noteq> []" and aligned: "length dataset_ratio = length dss"
  shows "MultiDatasetSampler_init cm (concat (tagged_datasets dss)) dataset_ratio use_rfs use_cas
           dataset_ann thr seed =
         (case per_dataset (rfs_body use_rfs dataset_ann thr) 0 (tagged_datasets dss) of
            Inl e \<Rightarrow> Inl e
          | Inr rfs_factors \<Rightarrow>
              (case per_dataset (cas_body use_cas) 0 (tagged_datasets dss) of
                 Inl e \<Rightarrow> Inl e
               | Inr cas_factors \<Rightarrow>
                   Inr \<lparr>mds_sizes = map length dss,
                        mds_seed = (case seed of None \<Rightarrow> shared_random_seed cm | Some sd \<Rightarrow> sd),
                        mds_rank = get_rank cm, mds_world_size = get_world_size cm,
                        mds_dataset_ids = map dataset_source (concat (tagged_datasets dss)),
                        mds_weights = tensor_mul (dataset_weight dataset_ratio (map length dss))
                                        (concat cas_factors),
                        mds_sample_epoch_size =
                          length (tensor_mul (dataset_weight dataset_ratio (map length dss))
                                    (concat rfs_factors))\<rparr>))"
proof -
  let ?G = "tagged_datasets dss"
  have sizes: "count_sizes (replicate (length dataset_ratio) 0) (concat ?G) = Inr (map length dss)"
    using count_sizes_merged [of dss] aligned by simp
  have rfs: "rfs_loop (concat ?G) use_rfs dataset_ann thr 0 0 (map length dss) =
             per_dataset (rfs_body use_rfs dataset_ann thr) 0 ?G"
    using rfs_loop_concat [of "[]" ?G use_rfs dataset_ann thr 0] by (simp add: map_length_tagged)
  have cas: "cas_loop (concat ?G) use_cas 0 0 (map length dss) = per_dataset (cas_body use_cas) 0 ?G"
    using cas_loop_concat [of "[]" ?G use_cas 0] by (simp add: map_length_tagged)
  have r: "dataset_ratio \<noteq> []" using ne aligned by auto
  show ?thesis
    unfolding MultiDatasetSampler_init_def sizes
    by (simp add: rfs cas r ne aligned Let_def cong: sum.case_cong)
qed

lemma those_Some_map: "those (map f xs) = Some ys \<Longrightarrow> ys = map (\<lambda>x. the (f x)) xs"
  by (induction xs arbitrary: ys) (auto split: option.splits)

lemma tag_loop_Inr:
  "tag_loop n dss = Inr tagged \<Longrightarrow>
   (\<forall>dicts \<in> set dss. dicts \<noteq> []) \<and>
   tagged = map (\<lambda>(source_id, dicts). tag_source source_id dicts) (enumerate n dss)"
  by (induction dss arbitrary: n tagged) (auto split: if_splits sum.splits)

lemma merger_Inr:
  assumes "get_detection_dataset_dicts_with_source DatasetCatalog fc fk dataset_names
             filter_empty min_keypoints proposal_files = Inr dataset_dicts"
  shows "dataset_names \<noteq> [] \<and>
         (\<forall>name \<in> set dataset_names. the (DatasetCatalog name) \<noteq> []) \<and>
         dataset_dicts = concat (tagged_datasets (map (\<lambda>name. the (DatasetCatalog name)) dataset_names))"
proof -
  from assms have names: "dataset_names \<noteq> []"
    by (auto simp: get_detection_dataset_dicts_with_source_def split: if_splits)
  from assms names obtain dss where th: "those (map DatasetCatalog dataset_names) = Some dss"
    by (auto simp: get_detection_dataset_dicts_with_source_def split: option.splits)
  from assms names th obtain tagged where tl: "tag_loop 0 dss = Inr tagged"
    and dd: "dataset_dicts = concat tagged"
    by (auto simp: get_detection_dataset_dicts_with_source_def filter_loop_id
             split: if_splits sum.splits)
  have dss: "dss = map (\<lambda>name. the (DatasetCatalog name)) dataset_names"
    using th by (rule those_Some_map)
  from tag_loop_Inr [OF tl] have "\<forall>dicts \<in> set dss. dicts \<noteq> []"
    and "tagged = tagged_datasets dss" by (simp_all add: tagged_datasets_def)
  with names dd dss show ?thesis by simp
qed

lemma list_all2_tag_replicate:
  "(\<And>d. dataset_source d = i \<Longrightarrow> P d v) \<Longrightarrow>
   list_all2 P (tag_source i ds) (replicate (length ds) v)"
  by (induction ds) (simp_all add: tag_source_def)

lemma dataset_weight_broadcast:
  assumes aligned: "length dataset_ratio = length dss"
  shows "list_all2
           (\<lambda>d w. w = real (Max (set (map length dss))) / real (map length dss ! dataset_source d) *
                        dataset_ratio ! dataset_source d / sum_list dataset_ratio)
           (concat (tagged_datasets dss)) (dataset_weight dataset_ratio (map length dss))"
proof -
  let ?c = "\<lambda>r s. real (Max (set (map length dss))) / real s * r / sum_list dataset_ratio"
  let ?P = "\<lambda>d w. w = ?c (dataset_ratio ! dataset_source d) (map length dss ! dataset_source d)"
  let ?DW = "map (\<lambda>(r, s). replicate s (?c r s)) (zip dataset_ratio (map length dss))"
  have "list_all2 (list_all2 ?P) (tagged_datasets dss) ?DW"
  proof (rule list_all2_all_nthI)
    show "length (tagged_datasets dss) = length ?DW" using aligned by simp
  next
    fix i assume "i < length (tagged_datasets dss)"
    then have i: "i < length dss" by simp
    then have "?DW ! i = replicate (length (dss ! i)) (?c (dataset_ratio ! i) (length (dss ! i)))"
      using aligned by simp
    moreover have "list_all2 ?P (tag_source i (dss ! i))
                     (replicate (length (dss ! i)) (?c (dataset_ratio ! i) (length (dss ! i))))"
      using i by (intro list_all2_tag_replicate) simp
    ultimately show "list_all2 ?P (tagged_datasets dss ! i) (?DW ! i)"
      using i by (simp add: nth_tagged)
  qed
  then have "list_all2 ?P (concat (tagged_datasets dss)) (concat ?DW)"
    by (rule list_all2_concat)
  then show ?thesis by (simp only: dataset_weight_groups)
qed


lemma length_dataset_weight:
  "length dataset_ratio = length sizes \<Longrightarrow>
   length (dataset_weight dataset_ratio sizes) = sum_list sizes"
proof (induction dataset_ratio sizes rule: list_induct2)
  case Nil
  show ?case by (simp add: dataset_weight_groups)
next
  case (Cons r rs s ss)
  have "length (concat (map (\<lambda>(r, s). replicate s (f r s)) (zip rs ss))) = sum_list ss" for f :: "real \<Rightarrow> nat \<Rightarrow> real"
    using Cons.hyps by (induction rs ss rule: list_induct2) simp_all
  then show ?case by (simp add: dataset_weight_groups)
qed

lemma concat_replicate_groups:
  "length ys = length ls \<Longrightarrow> \<forall>i < length ls. ys ! i = replicate (ls ! i) v \<Longrightarrow>
   concat ys = replicate (sum_list ls) v"
proof (induction ys ls rule: list_induct2)
  case Nil
  show ?case by simp
next
  case (Cons y ys l ls)
  from Cons.prems have "y = replicate l v" by force
  moreover have "\<forall>i < length ls. ys ! i = replicate (ls ! i) v"
    using Cons.prems by force
  ultimately show ?case using Cons.IH by (simp add: replicate_add)
qed

lemma tensor_mul_ones: "tensor_mul xs (replicate (length xs) 1) = xs"
  by (induction xs) (simp_all add: tensor_mul_def)

lemma init_merged_Inr:
  assumes ne: "dss \<noteq> []" and aligned: "length dataset_ratio = length dss"
    and init: "MultiDatasetSampler_init cm (concat (tagged_datasets dss)) dataset_ratio use_rfs
                 use_cas dataset_ann thr seed = Inr S"
  obtains rfs_factors cas_factors where
    "per_dataset (rfs_body use_rfs dataset_ann thr) 0 (tagged_datasets dss) = Inr rfs_factors"
    "per_dataset (cas_body use_cas) 0 (tagged_datasets dss) = Inr cas_factors"
    "mds_sizes S = map length dss"
    "mds_weights S = tensor_mul (dataset_weight dataset_ratio (map length dss)) (concat cas_factors)"
    "mds_sample_epoch_size S =
       length (tensor_mul (dataset_weight dataset_ratio (map length dss)) (concat rfs_factors))"
    "mds_seed S = (case seed of None \<Rightarrow> shared_random_seed cm | Some sd \<Rightarrow> sd)"
    "mds_rank S = get_rank cm" "mds_world_size S = get_world_size cm"
  using init unfolding init_merged [OF ne aligned]
  by (auto split: sum.splits)

lemma merger_result:
  assumes names: "dataset_names \<noteq> []"
      and reg: "\<forall>n \<in> set dataset_names. \<exists>dicts. DatasetCatalog n = Some dicts \<and> dicts \<noteq> []"
  shows "get_detection_dataset_dicts_with_source DatasetCatalog fc fk
           dataset_names filter_empty min_keypoints None =
         Inr (concat (tagged_datasets (map (\<lambda>n. the (DatasetCatalog n)) dataset_names)))"
proof -
  let ?dss = "map (\<lambda>n. the (DatasetCatalog n)) dataset_names"
  have th: "those (map DatasetCatalog dataset_names) = Some ?dss"
    using reg by (intro those_map_Some) auto
  have ne: "\<forall>dicts \<in> set ?dss. dicts \<noteq> []"
    using reg by auto
  have ex: "\<not> list_ex (\<lambda>dicts. dicts = []) ?dss"
    using ne by (auto simp: list_ex_iff)
  show ?thesis
    unfolding get_detection_dataset_dicts_with_source_def tagged_datasets_def
    using names by (simp add: th ex tag_loop_nonempty [OF ne] filter_loop_id del: those.simps)
qed

lemma per_dataset_off:
  assumes "\<forall>k < length xss. body (i + k) (xss ! k) (length (xss ! k)) = Inr (replicate (length (xss ! k)) 1)"
  shows "\<exists>ys. per_dataset body i xss = Inr ys"
  using per_dataset_all [of xss body i "\<lambda>k xs. replicate (length xs) 1"] assms by simp

lemma init_flags_off:
  assumes ne: "dss \<noteq> []" and aligned: "length dataset_ratio = length dss"
    and rfs: "\<forall>i < length dss. i < length use_rfs \<and> \<not> use_rfs ! i"
    and cas: "\<forall>i < length dss. i < length use_cas \<and> \<not> use_cas ! i"
  shows "\<exists>S. MultiDatasetSampler_init cm (concat (tagged_datasets dss)) dataset_ratio use_rfs
                use_cas dataset_ann thr seed = Inr S"
proof -
  have "\<exists>ys. per_dataset (rfs_body use_rfs dataset_ann thr) 0 (tagged_datasets dss) = Inr ys"
    using rfs by (intro per_dataset_off) (auto simp: rfs_body_def)
  moreover have "\<exists>ys. per_dataset (cas_body use_cas) 0 (tagged_datasets dss) = Inr ys"
    using cas by (intro per_dataset_off) (auto simp: cas_body_def)
  ultimately show ?thesis
    unfolding init_merged [OF ne aligned] by auto
qed

text \<open>
  C4. For a sampler built on the merger's output with one ratio per dataset: the sizes it
  counts are the sizes of the datasets, and the local tensor \<^verbatim>\<open>dataset_weight\<close> holds,
  at the position of every dict of dataset \<open>i\<close>, the constant
  \<open>max(sizes) / sizes[i] * ratio[i] / sum(ratio)\<close>. When class-aware sampling is off for
  every dataset, this tensor is the sampler's weight vector. For sizes 100 and 10 with
  ratios 1 and 1 the weights are 0.5 for the 100 dicts of the first dataset and 5 for the
  10 dicts of the second.
\<close>

theorem dataset_weight_formula:
  assumes merged: "get_detection_dataset_dicts_with_source DatasetCatalog fc fk dataset_names
                     filter_empty min_keypoints None = Inr dataset_dicts"
      and aligned: "length dataset_ratio = length dataset_names"
      and init: "MultiDatasetSampler_init cm dataset_dicts dataset_ratio use_rfs use_cas
                   dataset_ann repeat_threshold seed = Inr S"
  shows "mds_sizes S = map (\<lambda>name. length (the (DatasetCatalog name))) dataset_names \<and>
         list_all2
           (\<lambda>d w. w = real (Max (set (mds_sizes S))) / real (mds_sizes S ! dataset_source d) *
                        dataset_ratio ! dataset_source d / sum_list dataset_ratio)
           dataset_dicts (dataset_weight dataset_ratio (mds_sizes S)) \<and>
         ((\<forall>i < length dataset_names. \<not> use_cas ! i) \<longrightarrow>
            mds_weights S = dataset_weight dataset_ratio (mds_sizes S))"
proof -
  let ?dss = "map (\<lambda>name. the (DatasetCatalog name)) dataset_names"
  from merger_Inr [OF merged] have ne: "?dss \<noteq> []"
    and dd: "dataset_dicts = concat (tagged_datasets ?dss)" by simp_all
  have al: "length dataset_ratio = length ?dss" using aligned by simp
  from init_merged_Inr [OF ne al init [unfolded dd]]
  obtain cas_factors where
    cas: "per_dataset (cas_body use_cas) 0 (tagged_datasets ?dss) = Inr cas_factors"
    and sizes: "mds_sizes S = map length ?dss"
    and weights: "mds_weights S = tensor_mul (dataset_weight dataset_ratio (map length ?dss)) (concat cas_factors)"
    by blast
  have 1: "mds_sizes S = map (\<lambda>name. length (the (DatasetCatalog name))) dataset_names"
    using sizes by (simp add: comp_def)
  have 2: "list_all2
           (\<lambda>d w. w = real (Max (set (mds_sizes S))) / real (mds_sizes S ! dataset_source d) *
                        dataset_ratio ! dataset_source d / sum_list dataset_ratio)
           dataset_dicts (dataset_weight dataset_ratio (mds_sizes S))"
    unfolding sizes dd by (rule dataset_weight_broadcast [OF al])
  have 3: "mds_weights S = dataset_weight dataset_ratio (mds_sizes S)"
    if off: "\<forall>i < length dataset_names. \<not> use_cas ! i"
  proof -
    from per_dataset_Inr [OF cas] have len: "length cas_factors = length ?dss"
      and body: "\<And>k. k < length ?dss \<Longrightarrow>
        cas_body use_cas k (tagged_datasets ?dss ! k) (length (tagged_datasets ?dss ! k)) = Inr (cas_factors ! k)"
      by simp_all
    have "\<forall>i < length (map length ?dss). cas_factors ! i = replicate (map length ?dss ! i) 1"
    proof (intro allI impI)
      fix i assume "i < length (map length ?dss)"
      then have i: "i < length ?dss" by simp
      then have "\<not> use_cas ! i" using off by simp
      with body [OF i] have "cas_factors ! i = replicate (length (tagged_datasets ?dss ! i)) 1"
        by (simp add: cas_body_def split: if_splits)
      with i show "cas_factors ! i = replicate (map length ?dss ! i) 1"
        by (simp add: nth_tagged tag_source_def)
    qed
    with len have "concat cas_factors = replicate (sum_list (map length ?dss)) 1"
      by (intro concat_replicate_groups) simp_all
    also have "sum_list (map length ?dss) = length (dataset_weight dataset_ratio (map length ?dss))"
      using al by (simp add: length_dataset_weight)
    finally show ?thesis
      unfolding weights sizes by (simp only: tensor_mul_ones)
  qed
  from 1 2 3 show ?thesis by blast
qed


theorem dataset_weight_formula_witness:
  "get_detection_dataset_dicts_with_source ex_catalog (\<lambda>ds. ds) (\<lambda>ds k. ds) [''big'', ''small'']
     True 0 (None :: unit option) =
     Inr (concat (tagged_datasets [replicate 100 d0, replicate 10 d0])) \<and>
   (\<exists>S. MultiDatasetSampler_init cm0 (concat (tagged_datasets [replicate 100 d0, replicate 10 d0]))
           [1, 1] [False, False] [False, False] [''box'', ''box''] (1 / 1000) None = Inr S \<and>
        mds_sizes S = [100, 10] \<and>
        mds_weights S = replicate 100 (1 / 2) @ replicate 10 5)"
proof -
  let ?dd = "concat (tagged_datasets [replicate 100 d0, replicate 10 d0])"
  have M: "get_detection_dataset_dicts_with_source ex_catalog (\<lambda>ds. ds) (\<lambda>ds k. ds)
             [''big'', ''small''] True 0 (None :: unit option) = Inr ?dd"
    using merger_result [of "[''big'', ''small'']" ex_catalog "\<lambda>ds. ds" "\<lambda>ds k. ds" True 0]
    by (simp add: ex_catalog_def)
  obtain S where S: "MultiDatasetSampler_init cm0 ?dd [1, 1] [False, False] [False, False]
                       [''box'', ''box''] (1 / 1000) None = Inr S"
    using init_flags_off [of "[replicate 100 d0, replicate 10 d0]" "[1, 1]" "[False, False]"
            "[False, False]" cm0 "[''box'', ''box'']" "1 / 1000" None]
    by (auto simp: less_Suc_eq numeral_2_eq_2)
  from dataset_weight_formula [OF M _ S]
  have sizes: "mds_sizes S = [100, 10]"
    and w: "mds_weights S = dataset_weight [1, 1] (mds_sizes S)"
    by (simp_all add: ex_catalog_def less_Suc_eq numeral_2_eq_2)
  have "dataset_weight [1, 1] [100, 10] = replicate 100 (1 / 2) @ replicate 10 5"
    by (simp add: dataset_weight_groups)
  with sizes w M S show ?thesis by auto
qed

lemma fold_count_one:
  "fold (\<lambda>cat_id f. f(cat_id := Suc (f cat_id))) ids f0 c = f0 c + count_list ids c"
  by (induction ids arbitrary: f0) simp_all

lemma fold_count_all:
  "fold (fold (\<lambda>cat_id f. f(cat_id := Suc (f cat_id)))) idss f0 c =
   f0 c + sum_list (map (\<lambda>ids. count_list ids c) idss)"
  by (induction idss arbitrary: f0) (simp_all add: fold_count_one)

lemma count_ids_eq: "count_ids idss c = sum_list (map (\<lambda>ids. count_list ids c) idss)"
  by (simp add: count_ids_def fold_count_all)

lemma count_ids_pos: "ids \<in> set idss \<Longrightarrow> c \<in> set ids \<Longrightarrow> 0 < count_ids idss c"
proof -
  assume a: "ids \<in> set idss" and c: "c \<in> set ids"
  have "count_list ids c \<noteq> 0" using c count_list_0_iff [of ids c] by simp
  moreover have "count_list ids c \<le> sum_list (map (\<lambda>ids. count_list ids c) idss)"
    using a by (intro member_le_sum_list) auto
  ultimately show ?thesis by (simp add: count_ids_eq)
qed

lemma those_eq_Some: "those xs = Some ys \<Longrightarrow> xs = map Some ys"
  by (induction xs arbitrary: ys) (auto split: option.splits)

lemma sum_list_pos_real:
  fixes xs :: "real list"
  shows "\<forall>x \<in> set xs. 0 < x \<Longrightarrow> xs \<noteq> [] \<Longrightarrow> 0 < sum_list xs"
proof (induction xs)
  case Nil
  then show ?case by simp
next
  case (Cons x xs)
  then show ?case by (cases xs) (auto intro: add_pos_pos)
qed

lemma member_le_sum_list_real:
  fixes xs :: "real list"
  shows "\<forall>x \<in> set xs. 0 \<le> x \<Longrightarrow> y \<in> set xs \<Longrightarrow> y \<le> sum_list xs"
proof (induction xs)
  case Nil
  then show ?case by simp
next
  case (Cons x xs)
  have nn: "0 \<le> sum_list xs" using Cons.prems(1) by (intro sum_list_nonneg) simp
  show ?case
  proof (cases "y = x")
    case True
    with nn show ?thesis by simp
  next
    case False
    with Cons.prems have "y \<in> set xs" by simp
    with Cons.IH Cons.prems(1) have "y \<le> sum_list xs" by simp
    moreover have "0 \<le> x" using Cons.prems(1) by simp
    ultimately show ?thesis by simp
  qed
qed

lemma class_balance_entries:
  assumes "get_class_balance_factor_per_dataset ds 1 = Inr f"
  shows "length f = length ds \<and>
         (\<forall>j < length ds. \<exists>anns. annotations (ds ! j) = Some anns \<and>
              (anns = [] \<longrightarrow> f ! j = 0) \<and> (anns \<noteq> [] \<longrightarrow> 0 < f ! j))"
proof -
  from assms obtain anns where th: "those (map annotations ds) = Some anns"
    and f: "f = map (\<lambda>cat_ids. sum_list (map (\<lambda>cat_id. 1 / (real (count_ids (map remdups anns) cat_id) powr 1)) cat_ids))
                  (map remdups anns)"
    by (auto simp: get_class_balance_factor_per_dataset_def Let_def split: option.splits)
  from those_eq_Some [OF th] have ma: "map annotations ds = map Some anns" .
  then have len: "length anns = length ds" by (metis length_map)
  have ann: "annotations (ds ! j) = Some (anns ! j)" if "j < length ds" for j
    using that ma len by (metis nth_map)
  have entry: "(anns ! j = [] \<longrightarrow> f ! j = 0) \<and> (anns ! j \<noteq> [] \<longrightarrow> 0 < f ! j)" if j: "j < length ds" for j
  proof -
    let ?inv = "\<lambda>cat_id. 1 / (real (count_ids (map remdups anns) cat_id) powr 1)"
    have fj: "f ! j = sum_list (map ?inv (remdups (anns ! j)))"
      using j len by (simp add: f)
    have pos: "\<forall>x \<in> set (map ?inv (remdups (anns ! j))). 0 < x"
    proof
      fix x assume "x \<in> set (map ?inv (remdups (anns ! j)))"
      then obtain c where c: "c \<in> set (remdups (anns ! j))" and x: "x = ?inv c" by auto
      have "remdups (anns ! j) \<in> set (map remdups anns)" using j len by simp
      from count_ids_pos [OF this c] show "0 < x" by (simp add: x)
    qed
    show ?thesis
    proof (cases "anns ! j = []")
      case True
      then show ?thesis by (simp add: fj)
    next
      case False
      then have "map ?inv (remdups (anns ! j)) \<noteq> []" by simp
      from sum_list_pos_real [OF pos this] False show ?thesis by (simp add: fj)
    qed
  qed
  show ?thesis
  proof (intro conjI allI impI)
    show "length f = length ds" using len by (simp add: f)
  next
    fix j assume "j < length ds"
    with ann entry show "\<exists>anns. annotations (ds ! j) = Some anns \<and>
              (anns = [] \<longrightarrow> f ! j = 0) \<and> (anns \<noteq> [] \<longrightarrow> 0 < f ! j)" by blast
  qed
qed


lemma nth_tensor_mul:
  "j < length xs \<Longrightarrow> j < length ys \<Longrightarrow> tensor_mul xs ys ! j = xs ! j * ys ! j"
  by (simp add: tensor_mul_def)

lemma length_tensor_mul: "length (tensor_mul xs ys) = min (length xs) (length ys)"
  by (simp add: tensor_mul_def)

lemma cas_body_length:
  assumes "cas_body use_cas i xs (length xs) = Inr cf"
  shows "length cf = length xs"
proof (cases "use_cas ! i")
  case True
  with assms obtain f where f: "get_class_balance_factor_per_dataset xs 1 = Inr f"
    and cf: "cf = map (\<lambda>x. x * (real (length xs) / sum_list f)) f"
    by (auto simp: cas_body_def split: if_splits sum.splits)
  from class_balance_entries [OF f] cf show ?thesis by simp
next
  case False
  with assms show ?thesis by (auto simp: cas_body_def split: if_splits)
qed

lemma cas_group_positive:
  assumes body: "cas_body use_cas i xs (length xs) = Inr cf" and c: "0 < c"
  shows "list_all2 (\<lambda>d w. (0 < w) = (use_cas ! i \<longrightarrow> annotations d \<noteq> Some []))
           xs (tensor_mul (replicate (length xs) c) cf)"
proof (rule list_all2_all_nthI)
  show "length xs = length (tensor_mul (replicate (length xs) c) cf)"
    using cas_body_length [OF body] by (simp add: length_tensor_mul)
next
  fix j assume j: "j < length xs"
  have len: "length cf = length xs" by (rule cas_body_length [OF body])
  have w: "tensor_mul (replicate (length xs) c) cf ! j = c * cf ! j"
    using j len by (simp add: nth_tensor_mul)
  show "(0 < tensor_mul (replicate (length xs) c) cf ! j) =
        (use_cas ! i \<longrightarrow> annotations (xs ! j) \<noteq> Some [])"
  proof (cases "use_cas ! i")
    case False
    with body have "cf = replicate (length xs) 1"
      by (auto simp: cas_body_def split: if_splits)
    with j w c False show ?thesis by simp
  next
    case True
    with body obtain f where f: "get_class_balance_factor_per_dataset xs 1 = Inr f"
      and cf: "cf = map (\<lambda>x. x * (real (length xs) / sum_list f)) f"
      by (auto simp: cas_body_def split: if_splits sum.splits)
    note e = class_balance_entries [OF f]
    from e have lf: "length f = length xs" by simp
    from e j obtain anns where anns: "annotations (xs ! j) = Some anns"
      and zero: "anns = [] \<longrightarrow> f ! j = 0" and pos: "anns \<noteq> [] \<longrightarrow> 0 < f ! j" by blast
    have cfj: "cf ! j = f ! j * (real (length xs) / sum_list f)"
      using j lf by (simp add: cf)
    show ?thesis
    proof (cases "anns = []")
      case True
      with zero cfj w anns \<open>use_cas ! i\<close> show ?thesis by simp
    next
      case False
      with pos have fj: "0 < f ! j" by simp
      have nonneg: "\<forall>x \<in> set f. 0 \<le> x"
      proof
        fix x assume "x \<in> set f"
        then obtain k where k: "k < length f" and x: "x = f ! k" by (auto simp: in_set_conv_nth)
        from k lf have "k < length xs" by simp
        with e have "\<exists>anns. annotations (xs ! k) = Some anns \<and>
              (anns = [] \<longrightarrow> f ! k = 0) \<and> (anns \<noteq> [] \<longrightarrow> 0 < f ! k)" by blast
        then obtain a :: "int list" where "a = [] \<longrightarrow> f ! k = 0" "a \<noteq> [] \<longrightarrow> 0 < f ! k"
          by blast
        then show "0 \<le> x" unfolding x by (cases "a = []") simp_all
      qed
      have "f ! j \<in> set f" using j lf by simp
      from member_le_sum_list_real [OF nonneg this] fj have "0 < sum_list f" by simp
      moreover have "0 < real (length xs)" using j by (cases xs) simp_all
      ultimately have "0 < cf ! j" using fj by (simp add: cfj)
      with c have "0 < c * cf ! j" by simp
      with w anns False \<open>use_cas ! i\<close> show ?thesis by simp
    qed
  qed
qed

lemma dataset_constant_pos:
  assumes pos: "\<forall>r \<in> set dataset_ratio. 0 < r" and i: "i < length dataset_ratio"
    and s: "s \<in> set sizes" "0 < s"
  shows "0 < real (Max (set sizes)) / real s * dataset_ratio ! i / sum_list dataset_ratio"
proof -
  have "s \<le> Max (set sizes)" using s by simp
  with s have "0 < Max (set sizes)" by linarith
  then have "0 < real (Max (set sizes))" by simp
  moreover have "0 < dataset_ratio ! i" using pos i by simp
  moreover have "0 < sum_list dataset_ratio"
    using pos i by (intro sum_list_pos_real) auto
  ultimately show ?thesis using s by simp
qed


lemmas eval_defs =
  MultiDatasetSampler_init_def dataset_weight_def rfs_body_def cas_body_def tensor_mul_def
  get_class_balance_factor_per_dataset_def count_ids_def cm0_def Let_def

lemma ex_init_zero:
  "MultiDatasetSampler_init cm0 [e_wide, e_tall] [1] [False] [True] [''box''] (1 / 1000) None =
   Inr \<lparr>mds_sizes = [2], mds_seed = 42, mds_rank = 0, mds_world_size = 1,
        mds_dataset_ids = [0, 0], mds_weights = [2, 0], mds_sample_epoch_size = 2\<rparr>"
  by (simp add: eval_defs e_wide_def e_tall_def)


text \<open>
  C2, the claim as stated fails: with class-aware sampling on, a dict without annotations
  has an empty set of category ids, its class-balance factor is the empty sum, and its
  weight is 0. Here a dataset of two dicts, the second without annotations, gets the
  weights 2 and 0.
\<close>

theorem empty_category_set_weight_counterexample:
  "get_detection_dataset_dicts_with_source [''a'' \<mapsto> [e_wide, e_tall]] (\<lambda>ds. ds) (\<lambda>ds k. ds)
     [''a''] True 0 (None :: unit option) = Inr [e_wide, e_tall] \<and>
   annotations e_tall = Some [] \<and>
   MultiDatasetSampler_init cm0 [e_wide, e_tall] [1] [False] [True] [''box''] (1 / 1000) None =
     Inr \<lparr>mds_sizes = [2], mds_seed = 42, mds_rank = 0, mds_world_size = 1,
          mds_dataset_ids = [0, 0], mds_weights = [2, 0], mds_sample_epoch_size = 2\<rparr>"
proof -
  have "get_detection_dataset_dicts_with_source [''a'' \<mapsto> [e_wide, e_tall]] (\<lambda>ds. ds) (\<lambda>ds k. ds)
     [''a''] True 0 (None :: unit option) = Inr [e_wide, e_tall]"
    by (simp add: get_detection_dataset_dicts_with_source_def tag_source_def filter_loop_id
          e_wide_def e_tall_def)
  moreover have "annotations e_tall = Some []" by (simp add: e_tall_def)
  ultimately show ?thesis using ex_init_zero by simp
qed

text \<open>
  C2, amended. For a sampler built on the merger's output with one positive ratio per
  dataset, the weight of a dict is strictly positive exactly when class-aware sampling is
  off for its dataset or the dict has at least one annotation; a dict with an empty set of
  category ids in a dataset with class-aware sampling gets no positive weight.
\<close>

theorem weights_positive_iff_categories:
  assumes merged: "get_detection_dataset_dicts_with_source DatasetCatalog fc fk dataset_names
                     filter_empty min_keypoints None = Inr dataset_dicts"
      and aligned: "length dataset_ratio = length dataset_names"
      and pos: "\<forall>r \<in> set dataset_ratio. 0 < r"
      and init: "MultiDatasetSampler_init cm dataset_dicts dataset_ratio use_rfs use_cas
                   dataset_ann repeat_threshold seed = Inr S"
  shows "list_all2 (\<lambda>d w. (0 < w) = (use_cas ! dataset_source d \<longrightarrow> annotations d \<noteq> Some []))
           dataset_dicts (mds_weights S)"
proof -
  let ?dss = "map (\<lambda>name. the (DatasetCatalog name)) dataset_names"
  let ?G = "tagged_datasets ?dss"
  let ?sizes = "map length ?dss"
  let ?c = "\<lambda>r s. real (Max (set ?sizes)) / real s * r / sum_list dataset_ratio"
  let ?DW = "map (\<lambda>(r, s). replicate s (?c r s)) (zip dataset_ratio ?sizes)"
  let ?P = "\<lambda>d w. (0 < w) = (use_cas ! dataset_source d \<longrightarrow> annotations d \<noteq> Some [])"
  from merger_Inr [OF merged] have ne: "?dss \<noteq> []"
    and nonempty: "\<forall>name \<in> set dataset_names. the (DatasetCatalog name) \<noteq> []"
    and dd: "dataset_dicts = concat ?G" by simp_all
  have al: "length dataset_ratio = length ?dss" using aligned by simp
  from init_merged_Inr [OF ne al init [unfolded dd]]
  obtain cas_factors where
    cas: "per_dataset (cas_body use_cas) 0 ?G = Inr cas_factors"
    and weights: "mds_weights S = tensor_mul (dataset_weight dataset_ratio ?sizes) (concat cas_factors)"
    by blast
  from per_dataset_Inr [OF cas] have len: "length cas_factors = length ?dss"
    and body: "\<And>k. k < length ?dss \<Longrightarrow>
        cas_body use_cas k (?G ! k) (length (?G ! k)) = Inr (cas_factors ! k)"
    by simp_all
  have lenG: "length (?G ! i) = length (?dss ! i)" if "i < length ?dss" for i
    using that by (simp add: nth_tagged tag_source_def)
  have DWi: "?DW ! i = replicate (length (?G ! i)) (?c (dataset_ratio ! i) (length (?dss ! i)))"
    if "i < length ?dss" for i
    using that al lenG [OF that] by simp
  have same: "list_all2 (\<lambda>a b. length a = length b) ?DW cas_factors"
  proof (rule list_all2_all_nthI)
    show "length ?DW = length cas_factors" using len al by simp
  next
    fix i assume "i < length ?DW"
    then have i: "i < length ?dss" using al by simp
    from cas_body_length [OF body [OF i]] DWi [OF i]
    show "length (?DW ! i) = length (cas_factors ! i)" by simp
  qed
  have w: "mds_weights S = concat (map2 tensor_mul ?DW cas_factors)"
    unfolding weights dataset_weight_groups by (rule tensor_mul_concat [OF same])
  have "list_all2 (list_all2 ?P) ?G (map2 tensor_mul ?DW cas_factors)"
  proof (rule list_all2_all_nthI)
    show "length ?G = length (map2 tensor_mul ?DW cas_factors)" using len al by simp
  next
    fix i assume "i < length ?G"
    then have i: "i < length ?dss" by simp
    have "?dss ! i \<noteq> []" using nonempty i by simp
    then have s: "0 < length (?dss ! i)" by simp
    have "length (?dss ! i) \<in> set ?sizes" using i by (metis length_map nth_map nth_mem)
    from dataset_constant_pos [OF pos _ this s, of i] i al
    have c: "0 < ?c (dataset_ratio ! i) (length (?dss ! i))" by simp
    from cas_group_positive [OF body [OF i] c]
    have "list_all2 (\<lambda>d w. (0 < w) = (use_cas ! i \<longrightarrow> annotations d \<noteq> Some []))
            (?G ! i) (tensor_mul (?DW ! i) (cas_factors ! i))"
      by (simp only: DWi [OF i])
    then have "list_all2 ?P (?G ! i) (tensor_mul (?DW ! i) (cas_factors ! i))"
    proof (rule list.rel_mono_strong)
      fix d w assume "d \<in> set (?G ! i)"
        and "(0 < w) = (use_cas ! i \<longrightarrow> annotations d \<noteq> Some [])"
      moreover from this(1) i have "dataset_source d = i"
        by (auto simp: nth_tagged tag_source_def)
      ultimately show "?P d w" by simp
    qed
    then show "list_all2 ?P (?G ! i) (map2 tensor_mul ?DW cas_factors ! i)"
      using i len al by simp
  qed
  then have "list_all2 ?P (concat ?G) (concat (map2 tensor_mul ?DW cas_factors))"
    by (rule list_all2_concat)
  then show ?thesis by (simp only: dd w)
qed


theorem weights_positive_iff_categories_witness:
  "get_detection_dataset_dicts_with_source [''a'' \<mapsto> [e_wide, e_wide2]] (\<lambda>ds. ds) (\<lambda>ds k. ds)
     [''a''] True 0 (None :: unit option) = Inr [e_wide, e_wide2] \<and>
   MultiDatasetSampler_init cm0 [e_wide, e_wide2] [1] [False] [True] [''box''] (1 / 1000) None =
     Inr \<lparr>mds_sizes = [2], mds_seed = 42, mds_rank = 0, mds_world_size = 1,
          mds_dataset_ids = [0, 0], mds_weights = [1, 1], mds_sample_epoch_size = 2\<rparr> \<and>
   list_all2 (\<lambda>d w. (0 < w) = ([True] ! dataset_source d \<longrightarrow> annotations d \<noteq> Some []))
     [e_wide, e_wide2] [1, 1 :: real]"
proof -
  have M: "get_detection_dataset_dicts_with_source [''a'' \<mapsto> [e_wide, e_wide2]] (\<lambda>ds. ds) (\<lambda>ds k. ds)
     [''a''] True 0 (None :: unit option) = Inr [e_wide, e_wide2]"
    by (simp add: get_detection_dataset_dicts_with_source_def tag_source_def filter_loop_id
          e_wide_def e_wide2_def)
  have S: "MultiDatasetSampler_init cm0 [e_wide, e_wide2] [1] [False] [True] [''box''] (1 / 1000) None =
     Inr \<lparr>mds_sizes = [2], mds_seed = 42, mds_rank = 0, mds_world_size = 1,
          mds_dataset_ids = [0, 0], mds_weights = [1, 1], mds_sample_epoch_size = 2\<rparr>"
    by (simp add: eval_defs e_wide_def e_wide2_def)
  from weights_positive_iff_categories [OF M _ _ S]
  have "list_all2 (\<lambda>d w. (0 < w) = ([True] ! dataset_source d \<longrightarrow> annotations d \<noteq> Some []))
     [e_wide, e_wide2] [1, 1 :: real]" by simp
  with M S show ?thesis by simp
qed

lemmas rfs_eval_defs =
  repeat_factors_from_tag_frequency_def repeat_factors_from_ids_def spec_weights_def

lemma ex_rfs:
  "rfs_loop [t_rare, t_common, t_common, t_common] [True] [''tag''] 1 0 0 [4] =
   Inr [[8 / 5, 4 / 5, 4 / 5, 4 / 5]]"
  by (simp add: eval_defs rfs_eval_defs t_rare_def t_common_def)

text \<open>
  C1, at a failing input. One tag dataset of four dicts with repeat-factor sampling on and a
  threshold of 1: the loop computes the repeat factors 8/5, 4/5, 4/5, 4/5, and the product
  \<^verbatim>\<open>dataset_weight * rfs_factors * cas_factors\<close> has these values, but the sampler's
  weights are 1, 1, 1, 1: the second assignment to \<^verbatim>\<open>self.weights\<close> is
  \<^verbatim>\<open>dataset_weight * cas_factors\<close> and drops the repeat factors. Switching
  \<^verbatim>\<open>use_rfs\<close> off gives the same sampler.
\<close>

theorem repeat_factors_dropped_from_weights:
  "rfs_loop [t_rare, t_common, t_common, t_common] [True] [''tag''] 1 0 0 [4] =
     Inr [[8 / 5, 4 / 5, 4 / 5, 4 / 5]] \<and>
   spec_weights [t_rare, t_common, t_common, t_common] [1] [True] [False] [''tag''] 1 [4] =
     Inr [8 / 5, 4 / 5, 4 / 5, 4 / 5] \<and>
   MultiDatasetSampler_init cm0 [t_rare, t_common, t_common, t_common] [1] [True] [False]
       [''tag''] 1 None =
     Inr \<lparr>mds_sizes = [4], mds_seed = 42, mds_rank = 0, mds_world_size = 1,
          mds_dataset_ids = [0, 0, 0, 0], mds_weights = [1, 1, 1, 1],
          mds_sample_epoch_size = 4\<rparr> \<and>
   MultiDatasetSampler_init cm0 [t_rare, t_common, t_common, t_common] [1] [False] [False]
       [''tag''] 1 None =
     MultiDatasetSampler_init cm0 [t_rare, t_common, t_common, t_common] [1] [True] [False]
       [''tag''] 1 None"
proof -
  have 1: "spec_weights [t_rare, t_common, t_common, t_common] [1] [True] [False] [''tag''] 1 [4] =
     Inr [8 / 5, 4 / 5, 4 / 5, 4 / 5]"
    by (simp only: spec_weights_def ex_rfs) (simp add: eval_defs eval_nat_numeral)
  have 2: "MultiDatasetSampler_init cm0 [t_rare, t_common, t_common, t_common] [1] [True] [False]
       [''tag''] 1 None =
     Inr \<lparr>mds_sizes = [4], mds_seed = 42, mds_rank = 0, mds_world_size = 1,
          mds_dataset_ids = [0, 0, 0, 0], mds_weights = [1, 1, 1, 1],
          mds_sample_epoch_size = 4\<rparr>"
    by (simp add: eval_defs rfs_eval_defs t_rare_def t_common_def)
  have 3: "MultiDatasetSampler_init cm0 [t_rare, t_common, t_common, t_common] [1] [False] [False]
       [''tag''] 1 None =
     Inr \<lparr>mds_sizes = [4], mds_seed = 42, mds_rank = 0, mds_world_size = 1,
          mds_dataset_ids = [0, 0, 0, 0], mds_weights = [1, 1, 1, 1],
          mds_sample_epoch_size = 4\<rparr>"
    by (simp add: eval_defs t_rare_def t_common_def)
  from ex_rfs 1 2 3 show ?thesis by simp
qed

text \<open>
  C9, at failing inputs. \<^verbatim>\<open>sizes\<close> is built with one entry per ratio, so the assertion
  \<^verbatim>\<open>len(dataset_ratio) == len(sizes)\<close> compares a length with itself: with one dataset
  and two ratios construction succeeds. Lists \<^verbatim>\<open>use_rfs\<close> and \<^verbatim>\<open>use_cas\<close> longer than
  the number of datasets are accepted too; a shorter one raises \<^verbatim>\<open>IndexError\<close>.
\<close>

theorem ratio_length_never_checked:
  "get_detection_dataset_dicts_with_source [''a'' \<mapsto> [e_wide]] (\<lambda>ds. ds) (\<lambda>ds k. ds)
     [''a''] True 0 (None :: unit option) = Inr [e_wide] \<and>
   MultiDatasetSampler_init cm0 [e_wide] [1, 1] [False, False] [False, False] [''box'', ''box'']
       (1 / 1000) None =
     Inr \<lparr>mds_sizes = [1, 0], mds_seed = 42, mds_rank = 0, mds_world_size = 1,
          mds_dataset_ids = [0], mds_weights = [1 / 2], mds_sample_epoch_size = 1\<rparr> \<and>
   MultiDatasetSampler_init cm0 [e_wide] [1] [False, True, True] [False, True] [''box'']
       (1 / 1000) None =
     Inr \<lparr>mds_sizes = [1], mds_seed = 42, mds_rank = 0, mds_world_size = 1,
          mds_dataset_ids = [0], mds_weights = [1], mds_sample_epoch_size = 1\<rparr> \<and>
   MultiDatasetSampler_init cm0 [e_wide] [1] [] [False] [''box''] (1 / 1000) None = Inl IndexError"
proof -
  have "get_detection_dataset_dicts_with_source [''a'' \<mapsto> [e_wide]] (\<lambda>ds. ds) (\<lambda>ds k. ds)
     [''a''] True 0 (None :: unit option) = Inr [e_wide]"
    by (simp add: get_detection_dataset_dicts_with_source_def tag_source_def filter_loop_id
          e_wide_def)
  then show ?thesis by (simp add: eval_defs e_wide_def)
qed

lemma count_list_distinct: "distinct ids \<Longrightarrow> count_list ids c = (if c \<in> set ids then 1 else 0)"
  by (induction ids) auto

lemma count_ids_distinct:
  assumes "\<forall>ids \<in> set idss. distinct ids"
  shows "count_ids idss c = length (filter (\<lambda>ids. c \<in> set ids) idss)"
  using assms unfolding count_ids_eq
  by (induction idss) (simp_all add: count_list_distinct)

lemma those_map_Some_id: "those (map Some xs) = Some xs"
  by (induction xs) simp_all

lemma repeat_factors_from_ids_spec:
  assumes dist: "\<forall>ids \<in> set idss. distinct ids" and thr: "0 \<le> thr"
  shows "repeat_factors_from_ids idss thr = Inr (map (spec_record_factor thr idss) idss)"
proof -
  have freq: "real (count_ids idss c) / real (length idss) = spec_freq idss c" for c
    by (simp add: spec_freq_def count_ids_distinct [OF dist])
  have nonneg: "\<not> thr / spec_freq idss c < 0" for c
  proof -
    have "0 \<le> spec_freq idss c" by (simp add: spec_freq_def)
    with thr have "0 \<le> thr / spec_freq idss c" by simp
    then show ?thesis by simp
  qed
  have rec: "(if cat_ids = [] then 1
              else Max (set (map (\<lambda>cat_id. max 1 (sqrt (thr / spec_freq idss cat_id))) cat_ids))) =
             spec_record_factor thr idss cat_ids" for cat_ids
    by (simp add: spec_record_factor_def spec_rep_def)
  show ?thesis
    unfolding repeat_factors_from_ids_def Let_def freq
    by (simp add: nonneg list_ex_iff rec del: set_map)
qed

lemma spec_record_factor_ge1: "1 \<le> spec_record_factor thr tagss tags"
proof (cases "set tags = {}")
  case True
  then show ?thesis by (simp add: spec_record_factor_def)
next
  case False
  then obtain c where c: "c \<in> set tags" by (cases tags) auto
  have "1 \<le> spec_rep thr tagss c" by (simp add: spec_rep_def)
  also have "\<dots> \<le> Max (spec_rep thr tagss ` set tags)" using c by simp
  finally show ?thesis using False by (simp add: spec_record_factor_def)
qed

lemma sum_list_ge_length:
  fixes xs :: "real list"
  shows "\<forall>x \<in> set xs. 1 \<le> x \<Longrightarrow> real (length xs) \<le> sum_list xs"
  by (induction xs) auto

lemma sum_list_scaled:
  fixes xs :: "real list"
  shows "sum_list (map (\<lambda>x. x * k) xs) = sum_list xs * k"
  by (induction xs) (simp_all add: algebra_simps)

lemma sum_spec_repeat_factors:
  "sum_list (spec_repeat_factors thr tagss) = real (length tagss)"
proof (cases "tagss = []")
  case True
  then show ?thesis by (simp add: spec_repeat_factors_def)
next
  case False
  let ?raw = "map (spec_record_factor thr tagss) tagss"
  have "real (length ?raw) \<le> sum_list ?raw"
    by (rule sum_list_ge_length) (auto simp: spec_record_factor_ge1)
  moreover have "0 < real (length ?raw)" using False by simp
  ultimately have "sum_list ?raw \<noteq> 0" by linarith
  moreover have "sum_list (spec_repeat_factors thr tagss) =
                 sum_list ?raw * (real (length tagss) / sum_list ?raw)"
    unfolding spec_repeat_factors_def Let_def by (rule sum_list_scaled)
  ultimately show ?thesis by simp
qed


lemma rfs_body_tag:
  assumes i: "i < length use_rfs" "use_rfs ! i" "i < length dataset_ann" "dataset_ann ! i = ''tag''"
      and tags: "map pos_category_ids grp = map Some tagss"
      and dist: "\<forall>tags \<in> set tagss. distinct tags"
      and thr: "0 \<le> thr"
  shows "repeat_factors_from_tag_frequency grp thr = Inr (map (spec_record_factor thr tagss) tagss)"
    and "rfs_body use_rfs dataset_ann thr i grp (length grp) = Inr (spec_repeat_factors thr tagss)"
proof -
  have len: "length grp = length tagss" using tags by (metis length_map)
  show raw: "repeat_factors_from_tag_frequency grp thr = Inr (map (spec_record_factor thr tagss) tagss)"
    unfolding repeat_factors_from_tag_frequency_def tags those_map_Some_id
    by (simp add: repeat_factors_from_ids_spec [OF dist thr])
  show "rfs_body use_rfs dataset_ann thr i grp (length grp) = Inr (spec_repeat_factors thr tagss)"
    unfolding rfs_body_def using i
    by (simp add: raw len spec_repeat_factors_def Let_def)
qed

text \<open>
  On a group of dataset \<open>i\<close> with \<^verbatim>\<open>use_rfs[i]\<close> on and annotation kind
  \<^verbatim>\<open>tag\<close>, whose dicts carry lists of tag ids that repeat no id, and with a positive
  threshold: \<^verbatim>\<open>repeat_factors_from_tag_frequency\<close> returns the per-dict factors of the
  specification, the body of the loop in \<^verbatim>\<open>__init__\<close> returns them scaled, the scaled
  array sums to the size of the group, and it is the entry for dataset \<open>i\<close> of
  \<^verbatim>\<open>rfs_factors\<close> when the loop runs on the merged list.
\<close>

lemma tag_factors_spec_without_repeats:
  assumes i: "i < length use_rfs" "use_rfs ! i" "i < length dataset_ann" "dataset_ann ! i = ''tag''"
      and tags: "map pos_category_ids grp = map Some tagss"
      and dist: "\<forall>tags \<in> set tagss. distinct tags"
      and thr: "0 < repeat_threshold"
  shows "repeat_factors_from_tag_frequency grp repeat_threshold =
           Inr (map (spec_record_factor repeat_threshold tagss) tagss) \<and>
         rfs_body use_rfs dataset_ann repeat_threshold i grp (length grp) =
           Inr (spec_repeat_factors repeat_threshold tagss) \<and>
         sum_list (spec_repeat_factors repeat_threshold tagss) = real (length grp) \<and>
         (\<forall>dss rfs_factors.
            i < length dss \<and> dss ! i = grp \<and>
            rfs_loop (concat (tagged_datasets dss)) use_rfs dataset_ann repeat_threshold 0 0
              (map length dss) = Inr rfs_factors \<longrightarrow>
            rfs_factors ! i = spec_repeat_factors repeat_threshold tagss)"
proof -
  have thr': "0 \<le> repeat_threshold" using thr by simp
  have len: "length grp = length tagss" using tags by (metis length_map)
  note b = rfs_body_tag [OF i tags dist thr']
  have loop: "rfs_factors ! i = spec_repeat_factors repeat_threshold tagss"
    if "i < length dss \<and> dss ! i = grp \<and>
        rfs_loop (concat (tagged_datasets dss)) use_rfs dataset_ann repeat_threshold 0 0
          (map length dss) = Inr rfs_factors" for dss rfs_factors
  proof -
    from that have idss: "i < length dss" and g: "dss ! i = grp"
      and l: "rfs_loop (concat (tagged_datasets dss)) use_rfs dataset_ann repeat_threshold 0 0
                (map length dss) = Inr rfs_factors" by simp_all
    have "per_dataset (rfs_body use_rfs dataset_ann repeat_threshold) 0 (tagged_datasets dss) =
          Inr rfs_factors"
      using rfs_loop_concat [of "[]" "tagged_datasets dss" use_rfs dataset_ann repeat_threshold 0] l
      by (simp add: map_length_tagged)
    from per_dataset_Inr [OF this] idss
    have "rfs_body use_rfs dataset_ann repeat_threshold i (tagged_datasets dss ! i)
            (length (tagged_datasets dss ! i)) = Inr (rfs_factors ! i)" by simp
    moreover have "map pos_category_ids (tagged_datasets dss ! i) = map Some tagss"
      using idss g tags by (simp add: nth_tagged tag_source_def comp_def)
    ultimately show ?thesis
      using rfs_body_tag(2) [OF i _ dist thr', of "tagged_datasets dss ! i"] by simp
  qed
  from b sum_spec_repeat_factors [of repeat_threshold tagss] len loop
  show ?thesis by simp
qed

lemma ex_spec_repeat_factors:
  "spec_repeat_factors 1 [[7, 8], [8], [8], [8]] = [8 / 5, 4 / 5, 4 / 5, 4 / 5]"
  by (simp add: spec_repeat_factors_def spec_record_factor_def spec_rep_def spec_freq_def Let_def)

lemma tag_factors_spec_without_repeats_example:
  "map pos_category_ids [t_rare, t_common, t_common, t_common] = map Some [[7, 8], [8], [8], [8]] \<and>
   rfs_body [True] [''tag''] 1 0 [t_rare, t_common, t_common, t_common] 4 =
     Inr [8 / 5, 4 / 5, 4 / 5, 4 / 5] \<and>
   sum_list [8 / 5, 4 / 5, 4 / 5, 4 / 5 :: real] = 4"
proof -
  have tags: "map pos_category_ids [t_rare, t_common, t_common, t_common] =
              map Some [[7, 8], [8], [8], [8]]"
    by (simp add: t_rare_def t_common_def)
  from tag_factors_spec_without_repeats [of 0 "[True]" "[''tag'']", OF _ _ _ _ tags, of 1]
  have "rfs_body [True] [''tag''] 1 0 [t_rare, t_common, t_common, t_common]
          (length [t_rare, t_common, t_common, t_common]) =
        Inr (spec_repeat_factors 1 [[7, 8], [8], [8], [8]])"
    by simp
  then have "rfs_body [True] [''tag''] 1 0 [t_rare, t_common, t_common, t_common] 4 =
        Inr [8 / 5, 4 / 5, 4 / 5, 4 / 5]"
    by (simp add: ex_spec_repeat_factors eval_nat_numeral)
  with tags show ?thesis by simp
qed

lemma ex_dup_code:
  "repeat_factors_from_tag_frequency [t_dup, t_common] 1 = Inr [1, sqrt 2]"
  by (simp add: repeat_factors_from_tag_frequency_def repeat_factors_from_ids_def count_ids_def
        Let_def t_dup_def t_common_def max_def)

lemma ex_dup_spec:
  "map (spec_record_factor 1 [[7, 7], [8]]) [[7, 7], [8]] = [sqrt 2, sqrt 2]"
  by (simp add: spec_record_factor_def spec_rep_def spec_freq_def max_def)

lemma ex_dup_spec_scaled: "spec_repeat_factors 1 [[7, 7], [8]] = [1, 1]"
proof -
  have "sqrt 2 * (2 / (sqrt 2 + sqrt 2)) = 1" by simp
  then show ?thesis
    unfolding spec_repeat_factors_def Let_def ex_dup_spec by simp
qed

lemma ex_dup_body:
  "rfs_body [True] [''tag''] 1 0 [t_dup, t_common] 2 =
   Inr [2 / (1 + sqrt 2), sqrt 2 * (2 / (1 + sqrt 2))]"
  unfolding rfs_body_def by (simp add: ex_dup_code)

text \<open>
  C5, at a failing input. A group of two dicts with the tag lists \<open>[7, 7]\<close> and \<open>[8]\<close>,
  threshold 1. The counting loop of \<^verbatim>\<open>repeat_factors_from_tag_frequency\<close> adds one per
  occurrence, so tag 7 gets the frequency 2/2 where one of two dicts contains it; the
  sibling loop of \<^verbatim>\<open>_get_class_balance_factor_per_dataset\<close> builds the set of ids first
  (``for each image, without repeats''). The code returns the factors 1 and \<open>sqrt 2\<close>,
  scaled by \<open>2 / (1 + sqrt 2)\<close>; with the frequency as the share of dicts that contain
  the tag the factors are \<open>sqrt 2\<close> and \<open>sqrt 2\<close>, scaled to 1 and 1.
\<close>

theorem repeated_tag_counted_per_occurrence:
  "map pos_category_ids [t_dup, t_common] = [Some [7, 7], Some [8]] \<and>
   repeat_factors_from_tag_frequency [t_dup, t_common] 1 = Inr [1, sqrt 2] \<and>
   map (spec_record_factor 1 [[7, 7], [8]]) [[7, 7], [8]] = [sqrt 2, sqrt 2] \<and>
   rfs_body [True] [''tag''] 1 0 [t_dup, t_common] 2 =
     Inr [2 / (1 + sqrt 2), sqrt 2 * (2 / (1 + sqrt 2))] \<and>
   spec_repeat_factors 1 [[7, 7], [8]] = [1, 1] \<and>
   rfs_body [True] [''tag''] 1 0 [t_dup, t_common] 2 \<noteq> Inr (spec_repeat_factors 1 [[7, 7], [8]])"
proof -
  have tags: "map pos_category_ids [t_dup, t_common] = [Some [7, 7], Some [8]]"
    by (simp add: t_dup_def t_common_def)
  have "sqrt 2 \<noteq> 1" by simp
  then have "2 / (1 + sqrt 2) \<noteq> 1" by (simp add: field_simps)
  then have ne: "rfs_body [True] [''tag''] 1 0 [t_dup, t_common] 2 \<noteq>
                 Inr (spec_repeat_factors 1 [[7, 7], [8]])"
    by (simp add: ex_dup_body ex_dup_spec_scaled)
  from tags ex_dup_code ex_dup_spec ex_dup_body ex_dup_spec_scaled ne show ?thesis by simp
qed

lemma count_sizes_sum:
  "count_sizes sizes ds = Inr sizes' \<Longrightarrow> sum_list sizes' = sum_list sizes + length ds"
proof (induction ds arbitrary: sizes)
  case Nil
  then show ?case by simp
next
  case (Cons d ds)
  from Cons.prems have src: "dataset_source d < length sizes"
    and rest: "count_sizes (sizes[dataset_source d := sizes ! dataset_source d + 1]) ds = Inr sizes'"
    by (simp_all split: if_splits)
  have "sum_list (sizes[dataset_source d := sizes ! dataset_source d + 1]) = sum_list sizes + 1"
    using src by (simp add: sum_list_update)
  with Cons.IH [OF rest] show ?case by simp
qed

lemma those_length: "those xs = Some ys \<Longrightarrow> length ys = length xs"
  by (induction xs arbitrary: ys) (auto split: option.splits)

lemma repeat_factors_from_ids_length:
  "repeat_factors_from_ids idss thr = Inr rf \<Longrightarrow> length rf = length idss"
  by (auto simp: repeat_factors_from_ids_def Let_def split: if_splits)

lemma rfs_body_length:
  assumes "rfs_body use_rfs dataset_ann thr i slice s = Inr rf" and "length slice = s"
  shows "length rf = s"
proof (cases "use_rfs ! i")
  case False
  with assms show ?thesis by (auto simp: rfs_body_def split: if_splits)
next
  case True
  with assms obtain f where
    f: "(if dataset_ann ! i = ''box'' then repeat_factors_from_category_frequency
         else repeat_factors_from_tag_frequency) slice thr = Inr f"
    and rf: "rf = map (\<lambda>x. x * (real s / sum_list f)) f"
    by (auto simp: rfs_body_def split: if_splits sum.splits)
  have "length f = length slice"
  proof (cases "dataset_ann ! i = ''box''")
    case True
    with f obtain anns where "those (map annotations slice) = Some anns"
      and "repeat_factors_from_ids (map remdups anns) thr = Inr f"
      by (auto simp: repeat_factors_from_category_frequency_def split: option.splits)
    with those_length [of "map annotations slice" anns] repeat_factors_from_ids_length [of "map remdups anns" thr f]
    show ?thesis by simp
  next
    case False
    with f obtain idss where "those (map pos_category_ids slice) = Some idss"
      and "repeat_factors_from_ids idss thr = Inr f"
      by (auto simp: repeat_factors_from_tag_frequency_def split: option.splits)
    with those_length [of "map pos_category_ids slice" idss] repeat_factors_from_ids_length [of idss thr f]
    show ?thesis by simp
  qed
  with rf assms(2) show ?thesis by simp
qed

lemma rfs_loop_length:
  "rfs_loop dd use_rfs dataset_ann thr i st sizes = Inr rfs \<Longrightarrow>
   st + sum_list sizes \<le> length dd \<Longrightarrow> length (concat rfs) = sum_list sizes"
proof (induction sizes arbitrary: i st rfs)
  case Nil
  then show ?case by simp
next
  case (Cons s sizes)
  from Cons.prems(1) obtain rf rest where
    rf: "rfs_body use_rfs dataset_ann thr i (take s (drop st dd)) s = Inr rf"
    and rest: "rfs_loop dd use_rfs dataset_ann thr (Suc i) (st + s) sizes = Inr rest"
    and rfs: "rfs = rf # rest"
    by (auto split: sum.splits)
  have "length (take s (drop st dd)) = s" using Cons.prems(2) by simp
  from rfs_body_length [OF rf this] have "length rf = s" .
  moreover have "length (concat rest) = sum_list sizes"
    using Cons.prems(2) by (intro Cons.IH [OF rest]) simp
  ultimately show ?case by (simp add: rfs)
qed

lemma cas_loop_length:
  "cas_loop dd use_cas i st sizes = Inr cas \<Longrightarrow>
   st + sum_list sizes \<le> length dd \<Longrightarrow> length (concat cas) = sum_list sizes"
proof (induction sizes arbitrary: i st cas)
  case Nil
  then show ?case by simp
next
  case (Cons s sizes)
  from Cons.prems(1) obtain cf rest where
    cf: "cas_body use_cas i (take s (drop st dd)) s = Inr cf"
    and rest: "cas_loop dd use_cas (Suc i) (st + s) sizes = Inr rest"
    and cas: "cas = cf # rest"
    by (auto split: sum.splits)
  have l: "length (take s (drop st dd)) = s" using Cons.prems(2) by simp
  from cas_body_length [of use_cas i "take s (drop st dd)" cf] cf l have "length cf = s" by simp
  moreover have "length (concat rest) = sum_list sizes"
    using Cons.prems(2) by (intro Cons.IH [OF rest]) simp
  ultimately show ?case by (simp add: cas)
qed

lemma init_epoch_size:
  assumes "MultiDatasetSampler_init cm dd dataset_ratio use_rfs use_cas dataset_ann thr seed = Inr S"
  shows "mds_sample_epoch_size S = length (mds_weights S)"
proof -
  from assms obtain sizes rfs cas where
    sizes: "count_sizes (replicate (length dataset_ratio) 0) dd = Inr sizes"
    and rfs: "rfs_loop dd use_rfs dataset_ann thr 0 0 sizes = Inr rfs"
    and cas: "cas_loop dd use_cas 0 0 sizes = Inr cas"
    and e: "mds_sample_epoch_size S = length (tensor_mul (dataset_weight dataset_ratio sizes) (concat rfs))"
    and w: "mds_weights S = tensor_mul (dataset_weight dataset_ratio sizes) (concat cas)"
    unfolding MultiDatasetSampler_init_def
    by (auto simp: Let_def split: sum.splits if_splits)
  from count_sizes_sum [OF sizes] have "sum_list sizes = length dd" by simp
  with rfs_loop_length [OF rfs] cas_loop_length [OF cas]
  have "length (concat rfs) = length (concat cas)" by simp
  then show ?thesis by (simp add: e w length_tensor_mul)
qed


lemma iter_cong:
  assumes "mds_seed s1 = mds_seed s2" "mds_rank s1 = mds_rank s2"
    "mds_world_size s1 = mds_world_size s2" "mds_weights s1 = mds_weights s2"
    "mds_sample_epoch_size s1 = mds_sample_epoch_size s2"
  shows "MultiDatasetSampler_iter ms mn s1 rounds = MultiDatasetSampler_iter ms mn s2 rounds"
  unfolding MultiDatasetSampler_iter_def infinite_indices_def
  using assms infinite_indices_loop_cong [of s1 s2 mn rounds "ms (mds_seed s2)"]
  by simp

text \<open>
  C7. Two samplers built from the same dicts and configuration with the same explicit seed,
  in two processes that agree on rank and world size but on nothing else (in particular not
  on the shared random seed), are equal, so their iterators yield the same first \<open>K\<close>
  indices after any number of rounds. More generally the iterator of a constructed sampler
  depends on the seed, the rank, the world size and the weight vector only. The generator
  is created and seeded inside \<^verbatim>\<open>_infinite_indices\<close>; \<^verbatim>\<open>torch.multinomial\<close> is a function
  of the weights, the number of draws and the generator.
\<close>

theorem sampler_stream_deterministic:
  assumes rank: "get_rank cm_a = get_rank cm_b"
      and world: "get_world_size cm_a = get_world_size cm_b"
      and init1: "MultiDatasetSampler_init cm_a dataset_dicts dataset_ratio use_rfs use_cas
                    dataset_ann repeat_threshold (Some seed) = Inr s1"
      and init2: "MultiDatasetSampler_init cm_b dataset_dicts dataset_ratio use_rfs use_cas
                    dataset_ann repeat_threshold (Some seed) = Inr s2"
  shows "s1 = s2 \<and>
         take K (fst (MultiDatasetSampler_iter ms mn s1 rounds)) =
           take K (fst (MultiDatasetSampler_iter ms mn s2 rounds)) \<and>
         (\<forall>cm' dataset_dicts' dataset_ratio' use_rfs' use_cas' dataset_ann' repeat_threshold'
            seed' s'.
            MultiDatasetSampler_init cm' dataset_dicts' dataset_ratio' use_rfs' use_cas'
              dataset_ann' repeat_threshold' seed' = Inr s' \<and>
            mds_seed s' = mds_seed s1 \<and> mds_rank s' = mds_rank s1 \<and>
            mds_world_size s' = mds_world_size s1 \<and> mds_weights s' = mds_weights s1 \<longrightarrow>
            MultiDatasetSampler_iter ms mn s' rounds = MultiDatasetSampler_iter ms mn s1 rounds)"
proof -
  have "MultiDatasetSampler_init cm_a dataset_dicts dataset_ratio use_rfs use_cas
          dataset_ann repeat_threshold (Some seed) =
        MultiDatasetSampler_init cm_b dataset_dicts dataset_ratio use_rfs use_cas
          dataset_ann repeat_threshold (Some seed)"
    unfolding MultiDatasetSampler_init_def using rank world
    by (simp add: Let_def split: sum.splits)
  with init1 init2 have eq: "s1 = s2" by simp
  have general: "MultiDatasetSampler_iter ms mn s' rounds = MultiDatasetSampler_iter ms mn s1 rounds"
    if "MultiDatasetSampler_init cm' dataset_dicts' dataset_ratio' use_rfs' use_cas'
              dataset_ann' repeat_threshold' seed' = Inr s' \<and>
        mds_seed s' = mds_seed s1 \<and> mds_rank s' = mds_rank s1 \<and>
        mds_world_size s' = mds_world_size s1 \<and> mds_weights s' = mds_weights s1"
    for cm' dataset_dicts' dataset_ratio' use_rfs' use_cas' dataset_ann' repeat_threshold' seed' s'
  proof -
    from that init_epoch_size [of cm' dataset_dicts' dataset_ratio' use_rfs' use_cas'
              dataset_ann' repeat_threshold' seed' s'] init_epoch_size [OF init1]
    have "mds_sample_epoch_size s' = mds_sample_epoch_size s1" by simp
    with that show ?thesis by (intro iter_cong) simp_all
  qed
  from eq general show ?thesis by blast
qed

theorem sampler_stream_deterministic_witness:
  "shared_random_seed cm0 \<noteq> shared_random_seed cm1 \<and>
   MultiDatasetSampler_init cm0 [e_wide, e_wide2] [1] [False] [True] [''box''] (1 / 1000) (Some 5) =
     Inr \<lparr>mds_sizes = [2], mds_seed = 5, mds_rank = 0, mds_world_size = 1,
          mds_dataset_ids = [0, 0], mds_weights = [1, 1], mds_sample_epoch_size = 2\<rparr> \<and>
   MultiDatasetSampler_init cm1 [e_wide, e_wide2] [1] [False] [True] [''box''] (1 / 1000) (Some 5) =
     MultiDatasetSampler_init cm0 [e_wide, e_wide2] [1] [False] [True] [''box''] (1 / 1000) (Some 5) \<and>
   MultiDatasetSampler_init cm1 [e_wide, e_wide2] [1] [False] [True] [''box''] (1 / 1000) None \<noteq>
     MultiDatasetSampler_init cm0 [e_wide, e_wide2] [1] [False] [True] [''box''] (1 / 1000) None"
proof -
  let ?S = "\<lparr>mds_sizes = [2], mds_seed = 5, mds_rank = 0, mds_world_size = 1,
          mds_dataset_ids = [0, 0], mds_weights = [1, 1], mds_sample_epoch_size = 2\<rparr>"
  have a: "MultiDatasetSampler_init cm0 [e_wide, e_wide2] [1] [False] [True] [''box''] (1 / 1000) (Some 5) = Inr ?S"
    by (simp add: eval_defs e_wide_def e_wide2_def)
  have b: "MultiDatasetSampler_init cm1 [e_wide, e_wide2] [1] [False] [True] [''box''] (1 / 1000) (Some 5) = Inr ?S"
    by (simp add: eval_defs cm1_def e_wide_def e_wide2_def)
  have c: "MultiDatasetSampler_init cm1 [e_wide, e_wide2] [1] [False] [True] [''box''] (1 / 1000) None \<noteq>
     MultiDatasetSampler_init cm0 [e_wide, e_wide2] [1] [False] [True] [''box''] (1 / 1000) None"
    by (simp add: eval_defs cm1_def e_wide_def e_wide2_def)
  have d: "shared_random_seed cm0 \<noteq> shared_random_seed cm1" by (simp add: cm0_def cm1_def)
  from sampler_stream_deterministic [OF _ _ a b, of 3 nat ex_multinomial 2] a b c d
  show ?thesis by (simp add: cm0_def cm1_def)
qed


end
